theory Spec2Isabelle
  imports Main "HOL-Library.Multiset" "HOL-Library.Char_ord" "HOL-Library.List_Lexorder"
begin

section \<open>The quiz tree held in session state\<close>

text \<open>
  \<^verbatim>\<open>main.py\<close> keeps a quiz as nested Python dictionaries: a list of sub-quizzes,
  each with a list of questions, each with a list of choices. Every \<^verbatim>\<open>'id'\<close> is a
  Python \<^verbatim>\<open>str\<close>, \<^verbatim>\<open>'type'\<close> is one of the strings chosen in the select box,
  \<^verbatim>\<open>'points'\<close> is a Python \<^verbatim>\<open>int\<close>. The records below carry exactly the keys that
  the scoring, saving, loading and submitting code reads.
\<close>

record choice =
  c_id :: string
  c_text :: string
  is_correct :: bool

record question =
  q_id :: string
  q_text :: string
  q_type :: string
  points :: int
  choices :: "choice list"

record subquiz =
  sq_id :: string
  sq_title :: string
  questions :: "question list"

text \<open>
  A submitted answer is dynamically typed in the source: \<^verbatim>\<open>None\<close> when nothing was
  selected, a \<^verbatim>\<open>str\<close> (a choice id, or the text of an open answer), or a list of
  choice ids.
\<close>

datatype answer = ANone | AStr string | AList "string list"

text \<open>
  The exceptions that the modelled code can raise: \<^verbatim>\<open>TypeError\<close> from
  \<^verbatim>\<open>sorted(None)\<close>, \<^verbatim>\<open>ValueError\<close> from \<^verbatim>\<open>int(...)\<close>, and
  \<^verbatim>\<open>mysql.connector.Error\<close>.
\<close>

datatype py_error = TypeError | ValueError | Error

section \<open>Scoring: \<^verbatim>\<open>score_answer\<close>\<close>

text \<open>
  \<^verbatim>\<open>next((c['id'] for c in question['choices'] if c['is_correct']), None)\<close>:
  the id of the first choice, in list order, that is marked correct.
\<close>

definition correct_choice_id :: "question \<Rightarrow> string option" where
  "correct_choice_id question =
     (case filter is_correct (choices question) of
        [] \<Rightarrow> None
      | c # _ \<Rightarrow> Some (c_id c))"

text \<open>
  \<^verbatim>\<open>submitted_answer == correct_choice_id\<close>, where the right-hand side is
  \<^verbatim>\<open>None\<close> or a \<^verbatim>\<open>str\<close>: Python's \<^verbatim>\<open>==\<close> across different types is
  \<^verbatim>\<open>False\<close>, and \<^verbatim>\<open>None == None\<close> is \<^verbatim>\<open>True\<close>.
\<close>

fun py_eq :: "answer \<Rightarrow> string option \<Rightarrow> bool" where
  "py_eq ANone None = True"
| "py_eq (AStr s) (Some t) = (s = t)"
| "py_eq _ _ = False"

text \<open>
  \<^verbatim>\<open>sorted(submitted_answer)\<close>: a list is sorted; a \<^verbatim>\<open>str\<close> is iterated
  character by character, giving a sorted list of one-character strings; \<^verbatim>\<open>None\<close>
  is not iterable. Strings are ordered lexicographically by character code.
\<close>

fun py_sorted :: "answer \<Rightarrow> py_error + string list" where
  "py_sorted ANone = Inl TypeError"
| "py_sorted (AStr s) = Inr (sort (map (\<lambda>ch. [ch]) s))"
| "py_sorted (AList xs) = Inr (sort xs)"

definition correct_ids :: "question \<Rightarrow> string list" where
  "correct_ids question = sort (map c_id (filter is_correct (choices question)))"

definition score_answer :: "question \<Rightarrow> answer \<Rightarrow> py_error + (int \<times> bool)" where
  "score_answer question submitted_answer =
     (if q_type question = ''SINGLE_CHOICE'' then
        (if py_eq submitted_answer (correct_choice_id question)
         then Inr (points question, True)
         else Inr (0, False))
      else if q_type question = ''MULTI_SELECT'' then
        (case py_sorted submitted_answer of
           Inl e \<Rightarrow> Inl e
         | Inr submitted_ids \<Rightarrow>
             if correct_ids question = submitted_ids
             then Inr (points question, True)
             else Inr (0, False))
      else if q_type question = ''OPEN_TEXT'' then Inr (0, False)
      else Inr (0, False))"

section \<open>Access codes: \<^verbatim>\<open>generate_access_code\<close>\<close>

text \<open>
  \<^verbatim>\<open>string.ascii_uppercase + string.digits\<close>: 36 characters.
\<close>

definition characters :: string where
  "characters = ''ABCDEFGHIJKLMNOPQRSTUVWXYZ'' @ ''0123456789''"

text \<open>
  \<^verbatim>\<open>''.join(random.choice(characters) for i in range(length))\<close>. The random
  source is made explicit: \<open>rng i\<close> is the number drawn for position \<open>i\<close>, and
  \<^verbatim>\<open>random.choice\<close> indexes the sequence with a number below its length. The
  function reads nothing else: no stored code is consulted.
\<close>

definition generate_access_code :: "(nat \<Rightarrow> nat) \<Rightarrow> nat \<Rightarrow> string" where
  "generate_access_code rng len =
     map (\<lambda>i. characters ! (rng i mod length characters)) [0..<len]"

text \<open>The module constant \<^verbatim>\<open>user_id\<close>.\<close>

definition user_id :: string where
  "user_id = ''streamlite_creator_session''"

section \<open>Decimal text of database ids: \<^verbatim>\<open>str\<close> and \<^verbatim>\<open>int\<close>\<close>

text \<open>
  \<^verbatim>\<open>get_quiz_by_code\<close> hands ids out as \<^verbatim>\<open>str(id)\<close> and
  \<^verbatim>\<open>submit_results\<close> reads them back with \<^verbatim>\<open>int(...)\<close>. \<open>py_str\<close> is the
  decimal text of a non-negative integer. \<open>py_int\<close> parses a non-empty string of
  ASCII digits and raises \<^verbatim>\<open>ValueError\<close> (here \<open>None\<close>) otherwise; Python's
  \<^verbatim>\<open>int\<close> also accepts a sign, surrounding blanks and underscores, none of which
  \<^verbatim>\<open>str\<close> of a database id produces.
\<close>

definition digit_char :: "nat \<Rightarrow> char" where
  "digit_char d = char_of (48 + d)"

function py_str :: "nat \<Rightarrow> string" where
  "py_str n = (if n < 10 then [digit_char n] else py_str (n div 10) @ [digit_char (n mod 10)])"
  by pat_completeness auto
termination
  by (relation "measure (\<lambda>n. n)") auto

declare py_str.simps [simp del]

definition is_digit :: "char \<Rightarrow> bool" where
  "is_digit ch = (48 \<le> (of_char ch :: nat) \<and> (of_char ch :: nat) \<le> 57)"

definition digit_val :: "char \<Rightarrow> nat" where
  "digit_val ch = of_char ch - 48"

definition py_int :: "string \<Rightarrow> nat option" where
  "py_int s =
     (if s \<noteq> [] \<and> list_all is_digit s
      then Some (foldl (\<lambda>a ch. 10 * a + digit_val ch) 0 s)
      else None)"

section \<open>The relational store\<close>

text \<open>
  The tables that the SQL statements of \<^verbatim>\<open>main.py\<close> name, with the columns they
  name. A table is the list of its rows in insertion order. The auto-increment keys that
  the code reads through \<^verbatim>\<open>cursor.lastrowid\<close> are drawn from one counter per table.
\<close>

record quiz_row =
  QuizID :: nat
  CreatorUserID :: string
  Title :: string
  Access_Code :: string

record subquiz_row =
  SubQuizID :: nat
  sq_QuizID :: nat
  sq_Title :: string
  sq_Order_Index :: nat

record question_row =
  QuestionID :: nat
  q_SubQuizID :: nat
  Question_Text :: string
  Question_Type :: string
  Points :: int
  q_Order_Index :: nat

record choice_row =
  ChoiceID :: nat
  c_QuestionID :: nat
  Choice_Text :: string
  Is_Correct :: int

text \<open>
  The text column \<^verbatim>\<open>Submitted_Answer\<close> receives either the literal
  \<^verbatim>\<open>"N/A"\<close> or \<^verbatim>\<open>str(submitted)\<close>; the model keeps the value that is rendered.
\<close>

datatype submitted_text = NA | Str answer

record taker_row =
  TakerID :: nat
  t_QuizID :: nat
  Taker_Name :: string
  Completed_At :: nat
  Total_Score :: int

record answer_row =
  a_TakerID :: nat
  a_QuestionID :: nat
  Submitted_Answer :: submitted_text
  a_Is_Correct :: int
  Score_Achieved :: int

text \<open>
  Modelled from the spec: the schema is not part of \<^verbatim>\<open>main.py\<close>; the
  specification lists \<^verbatim>\<open>Access_Code unique\<close> for \<^verbatim>\<open>Quizzes\<close>. Whether the
  store enforces that constraint is the field \<open>Access_Code_unique\<close>, so that every
  result below says which behaviour depends on it.
\<close>

record database =
  Quizzes :: "quiz_row list"
  SubQuizzes :: "subquiz_row list"
  Questions :: "question_row list"
  Choices :: "choice_row list"
  QuizTakers :: "taker_row list"
  Answers :: "answer_row list"
  next_QuizID :: nat
  next_SubQuizID :: nat
  next_QuestionID :: nat
  next_ChoiceID :: nat
  next_TakerID :: nat
  Access_Code_unique :: bool

definition empty_database :: "bool \<Rightarrow> database" where
  "empty_database uniq =
     \<lparr>Quizzes = [], SubQuizzes = [], Questions = [], Choices = [], QuizTakers = [],
      Answers = [], next_QuizID = 1, next_SubQuizID = 1, next_QuestionID = 1,
      next_ChoiceID = 1, next_TakerID = 1, Access_Code_unique = uniq\<rparr>"

text \<open>
  A cursor inside a transaction: the transaction's own view of the store, the number of
  statements executed so far, and \<^verbatim>\<open>lastrowid\<close>. Any \<^verbatim>\<open>cursor.execute\<close>, and
  \<^verbatim>\<open>conn.commit()\<close> after them, may raise \<^verbatim>\<open>mysql.connector.Error\<close>; which
  ones do is the fault plan: statement number \<open>k\<close> of the transaction raises when
  \<open>fault k\<close> holds.
\<close>

record cursor =
  db :: database
  executed :: nat
  lastrowid :: nat

type_synonym fault = "nat \<Rightarrow> bool"

definition start_transaction :: "database \<Rightarrow> cursor" where
  "start_transaction d = \<lparr>db = d, executed = 0, lastrowid = 0\<rparr>"

text \<open>
  \<^verbatim>\<open>conn.commit()\<close>: the transaction's view becomes the store, unless the commit
  itself raises.
\<close>

definition commit :: "fault \<Rightarrow> cursor \<Rightarrow> py_error + database" where
  "commit fault cur = (if fault (executed cur) then Inl Error else Inr (db cur))"

definition insert_Quizzes :: "fault \<Rightarrow> string \<Rightarrow> string \<Rightarrow> string \<Rightarrow> cursor \<Rightarrow> py_error + cursor" where
  "insert_Quizzes fault creator quiz_title code cur =
     (let d = db cur in
      if fault (executed cur)
         \<or> (Access_Code_unique d \<and> code \<in> set (map Access_Code (Quizzes d)))
      then Inl Error
      else Inr \<lparr>db = d\<lparr>Quizzes := Quizzes d @
                    [\<lparr>QuizID = next_QuizID d, CreatorUserID = creator,
                      Title = quiz_title, Access_Code = code\<rparr>],
                  next_QuizID := Suc (next_QuizID d)\<rparr>,
               executed = Suc (executed cur), lastrowid = next_QuizID d\<rparr>)"

definition insert_SubQuizzes :: "fault \<Rightarrow> nat \<Rightarrow> string \<Rightarrow> nat \<Rightarrow> cursor \<Rightarrow> py_error + cursor" where
  "insert_SubQuizzes fault quiz_id t idx cur =
     (let d = db cur in
      if fault (executed cur) then Inl Error
      else Inr \<lparr>db = d\<lparr>SubQuizzes := SubQuizzes d @
                    [\<lparr>SubQuizID = next_SubQuizID d, sq_QuizID = quiz_id,
                      sq_Title = t, sq_Order_Index = idx\<rparr>],
                  next_SubQuizID := Suc (next_SubQuizID d)\<rparr>,
               executed = Suc (executed cur), lastrowid = next_SubQuizID d\<rparr>)"

definition insert_Questions :: "fault \<Rightarrow> nat \<Rightarrow> string \<Rightarrow> string \<Rightarrow> int \<Rightarrow> nat \<Rightarrow> cursor \<Rightarrow> py_error + cursor" where
  "insert_Questions fault subquiz_id question_text ty pts idx cur =
     (let d = db cur in
      if fault (executed cur) then Inl Error
      else Inr \<lparr>db = d\<lparr>Questions := Questions d @
                    [\<lparr>QuestionID = next_QuestionID d, q_SubQuizID = subquiz_id,
                      Question_Text = question_text, Question_Type = ty, Points = pts,
                      q_Order_Index = idx\<rparr>],
                  next_QuestionID := Suc (next_QuestionID d)\<rparr>,
               executed = Suc (executed cur), lastrowid = next_QuestionID d\<rparr>)"

definition insert_Choices :: "fault \<Rightarrow> nat \<Rightarrow> string \<Rightarrow> int \<Rightarrow> cursor \<Rightarrow> py_error + cursor" where
  "insert_Choices fault question_id choice_text correct_int cur =
     (let d = db cur in
      if fault (executed cur) then Inl Error
      else Inr \<lparr>db = d\<lparr>Choices := Choices d @
                    [\<lparr>ChoiceID = next_ChoiceID d, c_QuestionID = question_id,
                      Choice_Text = choice_text, Is_Correct = correct_int\<rparr>],
                  next_ChoiceID := Suc (next_ChoiceID d)\<rparr>,
               executed = Suc (executed cur), lastrowid = next_ChoiceID d\<rparr>)"

definition insert_QuizTakers :: "fault \<Rightarrow> nat \<Rightarrow> string \<Rightarrow> nat \<Rightarrow> int \<Rightarrow> cursor \<Rightarrow> py_error + cursor" where
  "insert_QuizTakers fault quiz_id name now total_score cur =
     (let d = db cur in
      if fault (executed cur) then Inl Error
      else Inr \<lparr>db = d\<lparr>QuizTakers := QuizTakers d @
                    [\<lparr>TakerID = next_TakerID d, t_QuizID = quiz_id, Taker_Name = name,
                      Completed_At = now, Total_Score = total_score\<rparr>],
                  next_TakerID := Suc (next_TakerID d)\<rparr>,
               executed = Suc (executed cur), lastrowid = next_TakerID d\<rparr>)"

definition insert_Answers :: "fault \<Rightarrow> nat \<Rightarrow> nat \<Rightarrow> submitted_text \<Rightarrow> int \<Rightarrow> int \<Rightarrow> cursor \<Rightarrow> py_error + cursor" where
  "insert_Answers fault taker_id question_id sub correct_int sc cur =
     (let d = db cur in
      if fault (executed cur) then Inl Error
      else Inr \<lparr>db = d\<lparr>Answers := Answers d @
                    [\<lparr>a_TakerID = taker_id, a_QuestionID = question_id,
                      Submitted_Answer = sub, a_Is_Correct = correct_int,
                      Score_Achieved = sc\<rparr>]\<rparr>,
               executed = Suc (executed cur), lastrowid = lastrowid cur\<rparr>)"

section \<open>Saving a quiz: \<^verbatim>\<open>save_quiz\<close>\<close>

text \<open>
  The innermost loop, \<^verbatim>\<open>for choice in question['choices']\<close>: one
  \<^verbatim>\<open>INSERT INTO Choices\<close> per choice, in list order. An \<^verbatim>\<open>Error\<close> leaves the
  loop at once. \<open>is_correct_int\<close> is \<^verbatim>\<open>1 if ... else 0\<close>, which both
  \<^verbatim>\<open>save_quiz\<close> and \<^verbatim>\<open>submit_results\<close> compute before inserting.
\<close>

definition is_correct_int :: "bool \<Rightarrow> int" where
  "is_correct_int correct = (if correct then 1 else 0)"

fun save_choices :: "fault \<Rightarrow> nat \<Rightarrow> choice list \<Rightarrow> cursor \<Rightarrow> py_error + cursor" where
  "save_choices fault question_id [] cur = Inr cur"
| "save_choices fault question_id (choice # rest) cur =
     (case insert_Choices fault question_id (c_text choice)
             (is_correct_int (is_correct choice)) cur of
        Inl e \<Rightarrow> Inl e
      | Inr cur' \<Rightarrow> save_choices fault question_id rest cur')"

text \<open>
  \<^verbatim>\<open>for q_idx, question in enumerate(sub_quiz['questions'])\<close>: the question row,
  then its choices unless the type is \<^verbatim>\<open>'OPEN_TEXT'\<close>.
\<close>

fun save_questions :: "fault \<Rightarrow> nat \<Rightarrow> nat \<Rightarrow> question list \<Rightarrow> cursor \<Rightarrow> py_error + cursor" where
  "save_questions fault subquiz_id q_idx [] cur = Inr cur"
| "save_questions fault subquiz_id q_idx (question # rest) cur =
     (case insert_Questions fault subquiz_id (q_text question) (q_type question)
             (points question) q_idx cur of
        Inl e \<Rightarrow> Inl e
      | Inr cur1 \<Rightarrow>
          (case (if q_type question \<noteq> ''OPEN_TEXT''
                 then save_choices fault (lastrowid cur1) (choices question) cur1
                 else Inr cur1) of
             Inl e \<Rightarrow> Inl e
           | Inr cur2 \<Rightarrow> save_questions fault subquiz_id (Suc q_idx) rest cur2))"

text \<open>\<^verbatim>\<open>for sq_idx, sub_quiz in enumerate(sub_quizzes_data)\<close>.\<close>

fun save_subquizzes :: "fault \<Rightarrow> nat \<Rightarrow> nat \<Rightarrow> subquiz list \<Rightarrow> cursor \<Rightarrow> py_error + cursor" where
  "save_subquizzes fault quiz_id sq_idx [] cur = Inr cur"
| "save_subquizzes fault quiz_id sq_idx (sub_quiz # rest) cur =
     (case insert_SubQuizzes fault quiz_id (sq_title sub_quiz) sq_idx cur of
        Inl e \<Rightarrow> Inl e
      | Inr cur1 \<Rightarrow>
          (case save_questions fault (lastrowid cur1) 0 (questions sub_quiz) cur1 of
             Inl e \<Rightarrow> Inl e
           | Inr cur2 \<Rightarrow> save_subquizzes fault quiz_id (Suc sq_idx) rest cur2))"

text \<open>
  What \<^verbatim>\<open>save_quiz\<close> leaves behind: nothing happened because no connection could
  be opened; the \<^verbatim>\<open>except Error\<close> branch ran (\<^verbatim>\<open>conn.rollback()\<close>); or the
  transaction was committed and \<^verbatim>\<open>st.session_state['last_code']\<close> holds the code.
\<close>

datatype save_outcome = NoConnection | SaveFailed | Saved string

text \<open>
  The body of the \<^verbatim>\<open>try\<close> block up to \<^verbatim>\<open>conn.commit()\<close>: the access code is
  generated once, the quiz row is inserted, then the nested loops run.
\<close>

definition save_quiz_inserts :: "fault \<Rightarrow> string \<Rightarrow> string \<Rightarrow> subquiz list \<Rightarrow> cursor \<Rightarrow> py_error + cursor" where
  "save_quiz_inserts fault access_code quiz_title sub_quizzes_data cur =
     (case insert_Quizzes fault user_id quiz_title access_code cur of
        Inl e \<Rightarrow> Inl e
      | Inr cur1 \<Rightarrow> save_subquizzes fault (lastrowid cur1) 0 sub_quizzes_data cur1)"

text \<open>
  \<open>connected\<close> says whether \<^verbatim>\<open>get_db_connection()\<close> returned a connection.
  \<^verbatim>\<open>conn.rollback()\<close> in the \<^verbatim>\<open>except Error\<close> branch leaves the store as
  it was before \<^verbatim>\<open>conn.start_transaction()\<close>. (A real server
  does not hand rolled-back auto-increment numbers out again; the model restores the
  counters with the tables, and no result below depends on the numbers chosen.)
\<close>

definition save_quiz :: "bool \<Rightarrow> fault \<Rightarrow> (nat \<Rightarrow> nat) \<Rightarrow> string \<Rightarrow> subquiz list \<Rightarrow> database \<Rightarrow> database \<times> save_outcome" where
  "save_quiz connected fault rng quiz_title sub_quizzes_data d =
     (if \<not> connected then (d, NoConnection)
      else
        let access_code = generate_access_code rng 6 in
        case (case save_quiz_inserts fault access_code quiz_title sub_quizzes_data
                     (start_transaction d) of
                Inl e \<Rightarrow> Inl e
              | Inr cur \<Rightarrow> commit fault cur) of
          Inr d' \<Rightarrow> (d', Saved access_code)
        | Inl e \<Rightarrow> (d, SaveFailed))"

section \<open>Loading a quiz: \<^verbatim>\<open>get_quiz_by_code\<close>\<close>

text \<open>
  The dictionary \<^verbatim>\<open>quiz_data\<close>. Its entry \<^verbatim>\<open>'sub_quizzes_json'\<close> is
  \<^verbatim>\<open>json.dumps(sub_quizzes)\<close>, which \<^verbatim>\<open>taker_mode\<close> reads back with
  \<^verbatim>\<open>json.loads\<close>; the model keeps the list itself.
\<close>

record quiz_data =
  title :: string
  creator_id :: string
  access_code :: string
  sub_quizzes_json :: "subquiz list"

text \<open>
  \<^verbatim>\<open>SELECT ChoiceID, Choice_Text, Is_Correct FROM Choices WHERE QuestionID = %s\<close>
  has no \<^verbatim>\<open>ORDER BY\<close>; the rows come in table order, which is insertion order here.
  The letter drawn into \<^verbatim>\<open>choice_internal_id\<close> is never used.
\<close>

definition load_choices :: "database \<Rightarrow> nat \<Rightarrow> choice list" where
  "load_choices d q =
     map (\<lambda>c_raw. \<lparr>c_id = py_str (ChoiceID c_raw), c_text = Choice_Text c_raw,
                   is_correct = (Is_Correct c_raw \<noteq> 0)\<rparr>)
         (filter (\<lambda>r. c_QuestionID r = q) (Choices d))"

definition load_question :: "database \<Rightarrow> question_row \<Rightarrow> question" where
  "load_question d q_raw =
     \<lparr>q_id = py_str (QuestionID q_raw), q_text = Question_Text q_raw,
      q_type = Question_Type q_raw, points = Points q_raw,
      choices = (if Question_Type q_raw \<noteq> ''OPEN_TEXT''
                 then load_choices d (QuestionID q_raw) else [])\<rparr>"

text \<open>\<^verbatim>\<open>... FROM Questions WHERE SubQuizID = %s ORDER BY Order_Index\<close>.\<close>

definition load_subquiz :: "database \<Rightarrow> subquiz_row \<Rightarrow> subquiz" where
  "load_subquiz d sq_raw =
     \<lparr>sq_id = py_str (SubQuizID sq_raw), sq_title = sq_Title sq_raw,
      questions = map (load_question d)
         (sort_key q_Order_Index
            (filter (\<lambda>r. q_SubQuizID r = SubQuizID sq_raw) (Questions d)))\<rparr>"

text \<open>
  The result is \<^verbatim>\<open>(None, None)\<close> (here \<open>None\<close>) when there is no connection,
  when a query raises \<^verbatim>\<open>Error\<close> (\<open>failing\<close>), or when \<^verbatim>\<open>fetchone()\<close> finds no
  row with the code; otherwise the first such row heads the rebuilt quiz.
\<close>

definition get_quiz_by_code :: "bool \<Rightarrow> bool \<Rightarrow> database \<Rightarrow> string \<Rightarrow> (quiz_data \<times> string) option" where
  "get_quiz_by_code connected failing d code =
     (if \<not> connected \<or> failing then None
      else
        case filter (\<lambda>r. Access_Code r = code) (Quizzes d) of
          [] \<Rightarrow> None
        | quiz_header # _ \<Rightarrow>
            Some (\<lparr>title = Title quiz_header, creator_id = CreatorUserID quiz_header,
                   access_code = code,
                   sub_quizzes_json = map (load_subquiz d)
                     (sort_key sq_Order_Index
                        (filter (\<lambda>r. sq_QuizID r = QuizID quiz_header) (SubQuizzes d)))\<rparr>,
                  py_str (QuizID quiz_header)))"

section \<open>Taking a quiz: the \<^verbatim>\<open>QUIZ_ACTIVE\<close> step of \<^verbatim>\<open>taker_mode\<close>\<close>

text \<open>
  \<^verbatim>\<open>st.session_state['quiz_to_take']\<close>, with the keys that the active step and
  \<^verbatim>\<open>submit_results\<close> read. \<open>answers\<close> is the dictionary from session key to
  submitted value, as the list of its items in insertion order.
\<close>

record quiz_state =
  qs_id :: string
  sub_quizzes :: "subquiz list"
  taker_name :: string
  answers :: "(string \<times> answer) list"
  current_subquiz_index :: nat
  current_question_index :: nat

text \<open>
  What one run of the \<^verbatim>\<open>QUIZ_ACTIVE\<close> branch does before any widget is read:
  call \<^verbatim>\<open>submit_results()\<close>, move to the next sub-quiz, or show the current question
  with \<^verbatim>\<open>st.progress(questions_completed / total_questions, ...)\<close>.
\<close>

datatype active_view =
  CallSubmitResults
| NextSubQuiz quiz_state
| ShowQuestion (questions_completed: nat) (total_questions: nat) (current_question: question)

definition taker_mode_active :: "quiz_state \<Rightarrow> active_view" where
  "taker_mode_active st =
     (let sqs = sub_quizzes st;
          sq_idx = current_subquiz_index st;
          q_idx = current_question_index st
      in
        if sq_idx \<ge> length sqs then CallSubmitResults
        else
          let current_subquiz = sqs ! sq_idx in
          if q_idx \<ge> length (questions current_subquiz)
          then NextSubQuiz (st\<lparr>current_subquiz_index := sq_idx + 1,
                                current_question_index := 0\<rparr>)
          else
            ShowQuestion
              (sum_list (map (\<lambda>i. length (questions (sqs ! i))) [0..<sq_idx]) + q_idx)
              (sum_list (map (\<lambda>sq. length (questions sq)) sqs))
              (questions current_subquiz ! q_idx))"

section \<open>Recording an attempt: \<^verbatim>\<open>submit_results\<close>\<close>

text \<open>\<^verbatim>\<open>f"{subquiz['id']}_{question['id']}"\<close>.\<close>

definition session_key :: "subquiz \<Rightarrow> question \<Rightarrow> string" where
  "session_key sq q = sq_id sq @ ''_'' @ q_id q"

text \<open>
  The dictionary \<^verbatim>\<open>question_lookup\<close>, filled by the two nested loops; a later
  question with the same key replaces an earlier one. (\<^verbatim>\<open>all_questions_map\<close> is
  filled and never read.)
\<close>

definition question_lookup :: "subquiz list \<Rightarrow> (string \<rightharpoonup> question)" where
  "question_lookup sqs =
     foldl (\<lambda>m sq. foldl (\<lambda>m q. m(session_key sq q \<mapsto> q)) m (questions sq)) Map.empty sqs"

text \<open>
  The scoring of one recorded value inside the loop \<^verbatim>\<open>for session_key, submitted in
  quiz_state['answers'].items()\<close>: \<^verbatim>\<open>None\<close> and \<^verbatim>\<open>[]\<close> never reach
  \<^verbatim>\<open>score_answer\<close>.
\<close>

definition score_submitted :: "question \<Rightarrow> answer \<Rightarrow> py_error + (int \<times> bool \<times> submitted_text)" where
  "score_submitted q_data submitted =
     (if submitted = ANone \<or> submitted = AList [] then Inr (0, False, NA)
      else
        case score_answer q_data submitted of
          Inl e \<Rightarrow> Inl e
        | Inr (score, correct) \<Rightarrow> Inr (score, correct, Str submitted))"

record answer_to_insert =
  ans_question_id :: nat
  ans_submitted :: submitted_text
  ans_is_correct :: int
  ans_score :: int

text \<open>
  The loop over the recorded answers, threading \<^verbatim>\<open>total_score\<close> and
  \<^verbatim>\<open>answers_to_insert\<close>. A key that \<^verbatim>\<open>question_lookup\<close> does not hold is
  skipped (\<^verbatim>\<open>continue\<close>).
\<close>

fun process_answers :: "(string \<rightharpoonup> question) \<Rightarrow> (string \<times> answer) list \<Rightarrow> int \<Rightarrow> answer_to_insert list \<Rightarrow> py_error + (int \<times> answer_to_insert list)" where
  "process_answers lookup [] total_score answers_to_insert = Inr (total_score, answers_to_insert)"
| "process_answers lookup ((key, submitted) # rest) total_score answers_to_insert =
     (case lookup key of
        None \<Rightarrow> process_answers lookup rest total_score answers_to_insert
      | Some q_data \<Rightarrow>
          (case score_submitted q_data submitted of
             Inl e \<Rightarrow> Inl e
           | Inr (score, correct, submitted_str) \<Rightarrow>
               (case py_int (q_id q_data) of
                  None \<Rightarrow> Inl ValueError
                | Some question_id \<Rightarrow>
                    process_answers lookup rest (total_score + score)
                      (answers_to_insert @
                         [\<lparr>ans_question_id = question_id, ans_submitted = submitted_str,
                           ans_is_correct = is_correct_int correct,
                           ans_score = score\<rparr>]))))"

text \<open>\<^verbatim>\<open>for ans in answers_to_insert: cursor.execute(answer_insert_query, ...)\<close>.\<close>

fun save_answers :: "fault \<Rightarrow> nat \<Rightarrow> answer_to_insert list \<Rightarrow> cursor \<Rightarrow> py_error + cursor" where
  "save_answers fault taker_id [] cur = Inr cur"
| "save_answers fault taker_id (ans # rest) cur =
     (case insert_Answers fault taker_id (ans_question_id ans) (ans_submitted ans)
             (ans_is_correct ans) (ans_score ans) cur of
        Inl e \<Rightarrow> Inl e
      | Inr cur' \<Rightarrow> save_answers fault taker_id rest cur')"

definition submit_results_inserts :: "fault \<Rightarrow> nat \<Rightarrow> string \<Rightarrow> nat \<Rightarrow> int \<Rightarrow> answer_to_insert list \<Rightarrow> cursor \<Rightarrow> py_error + cursor" where
  "submit_results_inserts fault quiz_id name now total_score answers_to_insert cur =
     (case insert_QuizTakers fault quiz_id name now total_score cur of
        Inl e \<Rightarrow> Inl e
      | Inr cur1 \<Rightarrow> save_answers fault (lastrowid cur1) answers_to_insert cur1)"

text \<open>
  The outcomes of \<^verbatim>\<open>submit_results\<close>: no connection; an exception raised before
  the \<^verbatim>\<open>try\<close> block (it is not caught and nothing has been written); the
  \<^verbatim>\<open>except Error\<close> branch (\<^verbatim>\<open>conn.rollback()\<close>); or a committed attempt with
  \<^verbatim>\<open>st.session_state['final_score']\<close>.
\<close>

datatype submit_outcome = SubmitNoConnection | SubmitRaised py_error | SubmitFailed | Submitted int

text \<open>\<open>now\<close> is the value of \<^verbatim>\<open>NOW()\<close> in the insert statement.\<close>

definition submit_results :: "bool \<Rightarrow> fault \<Rightarrow> nat \<Rightarrow> quiz_state \<Rightarrow> database \<Rightarrow> database \<times> submit_outcome" where
  "submit_results connected fault now st d =
     (if \<not> connected then (d, SubmitNoConnection)
      else
        case py_int (qs_id st) of
          None \<Rightarrow> (d, SubmitRaised ValueError)
        | Some quiz_id \<Rightarrow>
            (case process_answers (question_lookup (sub_quizzes st)) (answers st) 0 [] of
               Inl e \<Rightarrow> (d, SubmitRaised e)
             | Inr (total_score, answers_to_insert) \<Rightarrow>
                 (case (case submit_results_inserts fault quiz_id (taker_name st) now
                                total_score answers_to_insert (start_transaction d) of
                          Inl e \<Rightarrow> Inl e
                        | Inr cur \<Rightarrow> commit fault cur) of
                    Inr d' \<Rightarrow> (d', Submitted total_score)
                  | Inl e \<Rightarrow> (d, SubmitFailed))))"

section \<open>Concrete questions used to exercise the scoring results\<close>

text \<open>
  A two-point multi-select question whose correct choices are \<open>x\<close> and \<open>y\<close>, and
  single-choice and multi-select questions on which the author left every
  \<^verbatim>\<open>Correct\<close> box unchecked (\<^verbatim>\<open>create_quiz_mode\<close> allows that).
\<close>

definition q_multi_xy :: question where
  "q_multi_xy =
     \<lparr>q_id = ''7'', q_text = ''Pick two'', q_type = ''MULTI_SELECT'', points = 2,
      choices = [\<lparr>c_id = ''x'', c_text = ''X'', is_correct = True\<rparr>,
                 \<lparr>c_id = ''y'', c_text = ''Y'', is_correct = True\<rparr>,
                 \<lparr>c_id = ''z'', c_text = ''Z'', is_correct = False\<rparr>]\<rparr>"

definition q_single_b :: question where
  "q_single_b =
     \<lparr>q_id = ''5'', q_text = ''Pick one'', q_type = ''SINGLE_CHOICE'', points = 1,
      choices = [\<lparr>c_id = ''a'', c_text = ''A'', is_correct = False\<rparr>,
                 \<lparr>c_id = ''b'', c_text = ''B'', is_correct = True\<rparr>,
                 \<lparr>c_id = ''c'', c_text = ''C'', is_correct = True\<rparr>]\<rparr>"

definition q_single_unmarked :: question where
  "q_single_unmarked =
     \<lparr>q_id = ''8'', q_text = ''Pick one'', q_type = ''SINGLE_CHOICE'', points = 3,
      choices = [\<lparr>c_id = ''a'', c_text = ''A'', is_correct = False\<rparr>,
                 \<lparr>c_id = ''b'', c_text = ''B'', is_correct = False\<rparr>]\<rparr>"

definition q_multi_unmarked :: question where
  "q_multi_unmarked =
     \<lparr>q_id = ''9'', q_text = ''Pick some'', q_type = ''MULTI_SELECT'', points = 2,
      choices = [\<lparr>c_id = ''a'', c_text = ''A'', is_correct = False\<rparr>,
                 \<lparr>c_id = ''b'', c_text = ''B'', is_correct = False\<rparr>]\<rparr>"

definition q_open :: question where
  "q_open =
     \<lparr>q_id = ''10'', q_text = ''Explain'', q_type = ''OPEN_TEXT'', points = 4,
      choices = []\<rparr>"

text \<open>
  A taker's session on a quiz with two modules of three and two questions, the cursor
  on the second module (index 1), question index 1.
\<close>

definition progress_state :: quiz_state where
  "progress_state =
     \<lparr>qs_id = ''1'',
      sub_quizzes =
        [\<lparr>sq_id = ''1'', sq_title = ''Module 1'',
           questions = [q_single_b, q_multi_xy, q_open]\<rparr>,
         \<lparr>sq_id = ''2'', sq_title = ''Module 2'',
           questions = [q_single_unmarked, q_multi_unmarked]\<rparr>],
      taker_name = ''Ada'', answers = [],
      current_subquiz_index = 1, current_question_index = 1\<rparr>"

section \<open>Vocabulary for the results on the store\<close>

text \<open>
  \<open>clear fault a n\<close>: none of the \<open>n\<close> statements numbered from \<open>a\<close> raises.
\<close>

definition clear :: "fault \<Rightarrow> nat \<Rightarrow> nat \<Rightarrow> bool" where
  "clear fault a n = list_all (\<lambda>k. \<not> fault k) [a..<a + n]"

text \<open>
  The number of \<^verbatim>\<open>INSERT\<close> statements that \<^verbatim>\<open>save_quiz\<close> issues for a tree:
  one for the quiz, one per sub-quiz, one per question, and one per choice of a
  question whose type is not \<^verbatim>\<open>'OPEN_TEXT'\<close>.
\<close>

definition choice_inserts :: "question \<Rightarrow> nat" where
  "choice_inserts q = (if q_type q \<noteq> ''OPEN_TEXT'' then length (choices q) else 0)"

definition question_inserts :: "question list \<Rightarrow> nat" where
  "question_inserts qs = sum_list (map (\<lambda>q. Suc (choice_inserts q)) qs)"

definition subquiz_inserts :: "subquiz list \<Rightarrow> nat" where
  "subquiz_inserts sqs = sum_list (map (\<lambda>sq. Suc (question_inserts (questions sq))) sqs)"

definition quiz_inserts :: "subquiz list \<Rightarrow> nat" where
  "quiz_inserts sqs = Suc (subquiz_inserts sqs)"

text \<open>The part of the store that the loops of \<^verbatim>\<open>save_quiz\<close> never touch.\<close>

definition quiz_part_same :: "database \<Rightarrow> database \<Rightarrow> bool" where
  "quiz_part_same d d' =
     (Quizzes d' = Quizzes d \<and> next_QuizID d' = next_QuizID d
      \<and> Access_Code_unique d' = Access_Code_unique d
      \<and> QuizTakers d' = QuizTakers d \<and> Answers d' = Answers d
      \<and> next_TakerID d' = next_TakerID d)"

section \<open>What a quiz tree says, apart from its ids\<close>

text \<open>
  The content of a tree: titles, question texts, types and points, choice texts and
  correctness flags, all in order, with every \<^verbatim>\<open>'id'\<close> left out.
\<close>

definition choice_content :: "choice \<Rightarrow> string \<times> bool" where
  "choice_content c = (c_text c, is_correct c)"

definition question_content :: "question \<Rightarrow> string \<times> string \<times> int \<times> (string \<times> bool) list" where
  "question_content q = (q_text q, q_type q, points q, map choice_content (choices q))"

definition subquiz_content :: "subquiz \<Rightarrow> string \<times> (string \<times> string \<times> int \<times> (string \<times> bool) list) list" where
  "subquiz_content sq = (sq_title sq, map question_content (questions sq))"

text \<open>The tree with the choices of every \<^verbatim>\<open>OPEN_TEXT\<close> question left out.\<close>

definition persisted_question :: "question \<Rightarrow> question" where
  "persisted_question q = q\<lparr>choices := (if q_type q \<noteq> ''OPEN_TEXT'' then choices q else [])\<rparr>"

definition persisted_subquiz :: "subquiz \<Rightarrow> subquiz" where
  "persisted_subquiz sq = sq\<lparr>questions := map persisted_question (questions sq)\<rparr>"

text \<open>The same content read off rows of the store.\<close>

definition choice_view :: "choice_row \<Rightarrow> string \<times> bool" where
  "choice_view r = (Choice_Text r, Is_Correct r \<noteq> 0)"

definition question_view :: "choice_row list \<Rightarrow> question_row \<Rightarrow> string \<times> string \<times> int \<times> (string \<times> bool) list" where
  "question_view crows r =
     (Question_Text r, Question_Type r, Points r,
      if Question_Type r \<noteq> ''OPEN_TEXT''
      then map choice_view (filter (\<lambda>c. c_QuestionID c = QuestionID r) crows)
      else [])"

definition subquiz_view :: "question_row list \<Rightarrow> choice_row list \<Rightarrow> subquiz_row \<Rightarrow> string \<times> (string \<times> string \<times> int \<times> (string \<times> bool) list) list" where
  "subquiz_view qrows crows r =
     (sq_Title r,
      map (question_view crows)
        (sort_key q_Order_Index (filter (\<lambda>q. q_SubQuizID q = SubQuizID r) qrows)))"

text \<open>
  Every foreign key in the store refers to a key that its table has already handed out.
  The empty store satisfies this, and \<^verbatim>\<open>save_quiz\<close> and \<^verbatim>\<open>submit_results\<close>
  keep it.
\<close>

definition keys_issued :: "database \<Rightarrow> bool" where
  "keys_issued d =
     (list_all (\<lambda>r. sq_QuizID r < next_QuizID d) (SubQuizzes d)
      \<and> list_all (\<lambda>r. q_SubQuizID r < next_SubQuizID d) (Questions d)
      \<and> list_all (\<lambda>r. c_QuestionID r < next_QuestionID d) (Choices d))"

section \<open>Validation, as the specification describes it\<close>

text \<open>
  Modelled from the spec: \<^verbatim>\<open>validate()\<close> of the authoring model, which
  \<^verbatim>\<open>main.py\<close> does not contain. It returns the reasons for which a tree fails the
  invariants of the data model (an empty list is a pass): a \<^verbatim>\<open>SINGLE_CHOICE\<close> or
  \<^verbatim>\<open>MULTI_SELECT\<close> question needs at least two choices and at least one choice
  marked correct, and every question needs positive points. Order indices are list
  positions in the authored tree, so dense ordering cannot fail there.
\<close>

datatype reason = TooFewChoices | NoCorrectChoice | NonPositivePoints

definition question_reasons :: "question \<Rightarrow> reason list" where
  "question_reasons q =
     (if q_type q \<in> {''SINGLE_CHOICE'', ''MULTI_SELECT''} \<and> length (choices q) < 2
      then [TooFewChoices] else [])
     @ (if q_type q \<in> {''SINGLE_CHOICE'', ''MULTI_SELECT''} \<and> \<not> list_ex is_correct (choices q)
        then [NoCorrectChoice] else [])
     @ (if points q \<le> 0 then [NonPositivePoints] else [])"

definition validate :: "subquiz list \<Rightarrow> reason list" where
  "validate tree = concat (map (\<lambda>sq. concat (map question_reasons (questions sq))) tree)"

section \<open>Concrete trees and stores used to exercise the results on the store\<close>

text \<open>
  An open question that still carries the default choices it was created with (the
  creator switched its type to \<^verbatim>\<open>OPEN_TEXT\<close> afterwards), and a tree containing it.
\<close>

definition q_open_leftover :: question where
  "q_open_leftover =
     \<lparr>q_id = ''3'', q_text = ''Explain'', q_type = ''OPEN_TEXT'', points = 1,
      choices = [\<lparr>c_id = ''a'', c_text = ''Choice A'', is_correct = True\<rparr>,
                 \<lparr>c_id = ''b'', c_text = ''Choice B'', is_correct = False\<rparr>]\<rparr>"

definition demo_tree :: "subquiz list" where
  "demo_tree =
     [\<lparr>sq_id = ''1'', sq_title = ''Basics'',
        questions = [q_single_b, q_open_leftover]\<rparr>,
      \<lparr>sq_id = ''2'', sq_title = ''More'', questions = [q_multi_xy]\<rparr>]"

text \<open>A tree whose only question has no choice marked correct.\<close>

definition unmarked_tree :: "subquiz list" where
  "unmarked_tree = [\<lparr>sq_id = ''1'', sq_title = ''Module'', questions = [q_single_unmarked]\<rparr>]"

text \<open>No statement fails; every random draw is \<open>0\<close>; statement number \<open>3\<close> fails.\<close>

definition no_fault :: fault where
  "no_fault = (\<lambda>k. False)"

definition zero_draws :: "nat \<Rightarrow> nat" where
  "zero_draws = (\<lambda>i. 0)"

definition fault_at_3 :: fault where
  "fault_at_3 = (\<lambda>k. k = 3)"

text \<open>The store after one quiz with an empty tree has been saved into the empty store.\<close>

definition one_quiz_store :: "bool \<Rightarrow> database" where
  "one_quiz_store uniq = fst (save_quiz True no_fault zero_draws ''First'' [] (empty_database uniq))"

text \<open>The store after \<open>demo_tree\<close> has been saved into the empty store.\<close>

definition demo_store :: database where
  "demo_store = fst (save_quiz True no_fault zero_draws ''Demo'' demo_tree (empty_database True))"

definition unmarked_store :: database where
  "unmarked_store =
     fst (save_quiz True no_fault zero_draws ''Quiz'' unmarked_tree (empty_database True))"

section \<open>Vocabulary for the results on \<^verbatim>\<open>submit_results\<close>\<close>

text \<open>
  The recorded answers that are scored: those whose session key names a question of the
  quiz. (\<^verbatim>\<open>taker_mode\<close> only ever records answers under such keys.)
\<close>

definition scored_answers :: "quiz_state \<Rightarrow> (string \<times> answer) list" where
  "scored_answers st =
     filter (\<lambda>(key, submitted). question_lookup (sub_quizzes st) key \<noteq> None) (answers st)"

text \<open>Every id in the session is the decimal text of a number, as \<^verbatim>\<open>str(id)\<close> is.\<close>

definition numeric_ids :: "quiz_state \<Rightarrow> bool" where
  "numeric_ids st =
     (py_int (qs_id st) \<noteq> None
      \<and> list_all (\<lambda>sq. list_all (\<lambda>q. py_int (q_id q) \<noteq> None) (questions sq)) (sub_quizzes st))"

text \<open>The part of the store that \<^verbatim>\<open>submit_results\<close> never touches.\<close>

definition quiz_tables_same :: "database \<Rightarrow> database \<Rightarrow> bool" where
  "quiz_tables_same d d' =
     (Quizzes d' = Quizzes d \<and> SubQuizzes d' = SubQuizzes d \<and> Questions d' = Questions d
      \<and> Choices d' = Choices d \<and> next_QuizID d' = next_QuizID d
      \<and> next_SubQuizID d' = next_SubQuizID d \<and> next_QuestionID d' = next_QuestionID d
      \<and> next_ChoiceID d' = next_ChoiceID d \<and> Access_Code_unique d' = Access_Code_unique d)"

text \<open>
  The attempt of the specification's end-to-end scenario: a single-choice question worth
  one point answered with its correct choice, a multi-select question worth two points
  answered with its two correct choices in the other order, and an open question.
\<close>

definition attempt_state :: quiz_state where
  "attempt_state =
     \<lparr>qs_id = ''1'',
      sub_quizzes =
        [\<lparr>sq_id = ''1'', sq_title = ''Module 1'',
           questions = [q_single_b, q_multi_xy, q_open]\<rparr>],
      taker_name = ''Ada'',
      answers = [(''1_5'', AStr ''b''), (''1_7'', AList [''y'', ''x'']),
                 (''1_10'', AStr ''because'')],
      current_subquiz_index = 1, current_question_index = 0\<rparr>"

section \<open>Results on scoring\<close>

lemma sort_eq_iff_mset: "sort xs = sort ys \<longleftrightarrow> mset xs = mset ys"
proof
  assume "sort xs = sort ys"
  then have "mset (sort xs) = mset (sort ys)" by simp
  then show "mset xs = mset ys" by simp
next
  assume "mset xs = mset ys"
  then show "sort xs = sort ys"
    by (metis mset_sort properties_for_sort sorted_sort)
qed

lemma score_answer_multi_list:
  assumes "q_type q = ''MULTI_SELECT''"
  shows "score_answer q (AList xs) =
     Inr (if mset xs = mset (map c_id (filter is_correct (choices q)))
          then (points q, True) else (0, False))"
proof -
  have "(correct_ids q = sort xs) = (mset xs = mset (map c_id (filter is_correct (choices q))))"
    unfolding correct_ids_def
    using sort_eq_iff_mset[of "map c_id (filter is_correct (choices q))" xs] by auto
  then show ?thesis using assms by (simp add: score_answer_def)
qed

lemma set_correct_ids:
  "set (map c_id (filter is_correct (choices q))) = c_id ` {c \<in> set (choices q). is_correct c}"
  by auto

text \<open>
  C1. For a \<^verbatim>\<open>MULTI_SELECT\<close> question and a submitted list of choice ids,
  \<open>score_answer\<close> does not depend on the order of the list; it returns the question's
  points with \<open>True\<close> exactly when the submitted ids and the ids of the choices marked
  correct agree as unordered collections (multisets), and \<open>(0, False)\<close> otherwise, with
  nothing in between. Whenever the two differ as sets (an id missing, extra or wrong, so
  also a proper subset or superset) the result is \<open>(0, False)\<close>; when neither list
  repeats an id, agreeing as sets gives full points.
\<close>

theorem score_answer_multi_select:
  assumes "q_type q = ''MULTI_SELECT''"
  shows "(\<forall>ys. mset ys = mset xs \<longrightarrow> score_answer q (AList ys) = score_answer q (AList xs))
     \<and> score_answer q (AList xs) =
         Inr (if mset xs = image_mset c_id (filter_mset is_correct (mset (choices q)))
              then (points q, True) else (0, False))
     \<and> (set xs \<noteq> c_id ` {c \<in> set (choices q). is_correct c}
          \<longrightarrow> score_answer q (AList xs) = Inr (0, False))
     \<and> (distinct xs \<and> distinct (map c_id (filter is_correct (choices q)))
          \<and> set xs = c_id ` {c \<in> set (choices q). is_correct c}
          \<longrightarrow> score_answer q (AList xs) = Inr (points q, True))"
proof (intro conjI allI impI)
  fix ys assume "mset ys = mset xs"
  then show "score_answer q (AList ys) = score_answer q (AList xs)"
    by (simp add: score_answer_multi_list[OF assms])
next
  show "score_answer q (AList xs) =
         Inr (if mset xs = image_mset c_id (filter_mset is_correct (mset (choices q)))
              then (points q, True) else (0, False))"
    by (simp add: score_answer_multi_list[OF assms])
next
  assume ne: "set xs \<noteq> c_id ` {c \<in> set (choices q). is_correct c}"
  have "mset xs \<noteq> mset (map c_id (filter is_correct (choices q)))"
  proof
    assume "mset xs = mset (map c_id (filter is_correct (choices q)))"
    then have "set xs = set (map c_id (filter is_correct (choices q)))"
      by (rule mset_eq_setD)
    with ne show False by (simp only: set_correct_ids)
  qed
  then show "score_answer q (AList xs) = Inr (0, False)"
    by (simp add: score_answer_multi_list[OF assms])
next
  assume h: "distinct xs \<and> distinct (map c_id (filter is_correct (choices q)))
          \<and> set xs = c_id ` {c \<in> set (choices q). is_correct c}"
  then have "set xs = set (map c_id (filter is_correct (choices q)))"
    by (simp only: set_correct_ids)
  with h have "mset xs = mset (map c_id (filter is_correct (choices q)))"
    using set_eq_iff_mset_eq_distinct[of xs "map c_id (filter is_correct (choices q))"]
    by blast
  then show "score_answer q (AList xs) = Inr (points q, True)"
    by (simp add: score_answer_multi_list[OF assms])
qed

theorem score_answer_multi_select_witness:
  "q_type q_multi_xy = ''MULTI_SELECT''
   \<and> score_answer q_multi_xy (AList [''y'', ''x'']) = Inr (2, True)
   \<and> score_answer q_multi_xy (AList [''x'']) = Inr (0, False)
   \<and> score_answer q_multi_xy (AList [''x'', ''y'', ''z'']) = Inr (0, False)"
proof -
  have t: "q_type q_multi_xy = ''MULTI_SELECT''" by (simp add: q_multi_xy_def)
  have a: "score_answer q_multi_xy (AList [''y'', ''x'']) = Inr (2, True)"
    using score_answer_multi_select[OF t, of "[''y'', ''x'']"] by (simp add: q_multi_xy_def)
  have b: "score_answer q_multi_xy (AList [''x'']) = Inr (0, False)"
    using score_answer_multi_select[OF t, of "[''x'']"] by (simp add: q_multi_xy_def)
  have c: "score_answer q_multi_xy (AList [''x'', ''y'', ''z'']) = Inr (0, False)"
    using score_answer_multi_select[OF t, of "[''x'', ''y'', ''z'']"]
    by (simp add: q_multi_xy_def)
  from t a b c show ?thesis by blast
qed

lemma correct_choice_id_find:
  "correct_choice_id q = map_option c_id (find is_correct (choices q))"
proof -
  have "(case filter P xs of [] \<Rightarrow> None | c # _ \<Rightarrow> Some (f c)) = map_option f (find P xs)"
    for P :: "'a \<Rightarrow> bool" and f :: "'a \<Rightarrow> 'b" and xs
    by (induction xs) auto
  then show ?thesis by (simp add: correct_choice_id_def)
qed

lemma correct_choice_id_None_iff:
  "correct_choice_id q = None \<longleftrightarrow> (\<forall>c\<in>set (choices q). \<not> is_correct c)"
  by (auto simp: correct_choice_id_find find_None_iff)




text \<open>
  C10. When no choice of a question is marked correct, \<open>score_answer\<close> gives the
  question's points with \<open>True\<close> to an empty submission: to \<^verbatim>\<open>None\<close> on a
  \<^verbatim>\<open>SINGLE_CHOICE\<close> question, and to the empty list on a \<^verbatim>\<open>MULTI_SELECT\<close>
  question.
\<close>

theorem score_answer_no_choice_marked:
  assumes "\<forall>c\<in>set (choices q). \<not> is_correct c"
  shows "(q_type q = ''SINGLE_CHOICE'' \<longrightarrow> score_answer q ANone = Inr (points q, True))
     \<and> (q_type q = ''MULTI_SELECT'' \<longrightarrow> score_answer q (AList []) = Inr (points q, True))"
proof (intro conjI impI)
  assume "q_type q = ''SINGLE_CHOICE''"
  moreover have "correct_choice_id q = None"
    using assms by (simp add: correct_choice_id_None_iff)
  ultimately show "score_answer q ANone = Inr (points q, True)"
    by (simp add: score_answer_def)
next
  assume "q_type q = ''MULTI_SELECT''"
  moreover have "filter is_correct (choices q) = []"
    using assms by (simp add: filter_empty_conv)
  ultimately show "score_answer q (AList []) = Inr (points q, True)"
    by (simp add: score_answer_def correct_ids_def)
qed

theorem score_answer_no_choice_marked_witness:
  "filter is_correct (choices q_single_unmarked) = []
   \<and> filter is_correct (choices q_multi_unmarked) = []
   \<and> score_answer q_single_unmarked ANone = Inr (3, True)
   \<and> score_answer q_multi_unmarked (AList []) = Inr (2, True)"
proof -
  have n1: "\<forall>c\<in>set (choices q_single_unmarked). \<not> is_correct c"
    by (simp add: q_single_unmarked_def)
  have n2: "\<forall>c\<in>set (choices q_multi_unmarked). \<not> is_correct c"
    by (simp add: q_multi_unmarked_def)
  have a: "score_answer q_single_unmarked ANone = Inr (3, True)"
    using score_answer_no_choice_marked[OF n1] by (simp add: q_single_unmarked_def)
  have b: "score_answer q_multi_unmarked (AList []) = Inr (2, True)"
    using score_answer_no_choice_marked[OF n2] by (simp add: q_multi_unmarked_def)
  from n1 n2 a b show ?thesis by (simp add: filter_empty_conv)
qed

section \<open>Results on the active step of a session\<close>

lemma sum_list_nth_upt_take:
  "n \<le> length xs \<Longrightarrow>
   sum_list (map (\<lambda>i. f (xs ! i)) [0..<n]) = sum_list (map f (take n xs))"
proof -
  assume n: "n \<le> length xs"
  have "map (\<lambda>i. f (xs ! i)) [0..<n] = map f (take n xs)"
    using n by (simp add: list_eq_iff_nth_eq)
  then show ?thesis by simp
qed

lemma sum_list_take_nth_less:
  fixes f :: "'a \<Rightarrow> nat"
  assumes "n < length xs" and "k < f (xs ! n)"
  shows "sum_list (map f (take n xs)) + k < sum_list (map f xs)"
proof -
  have "xs = take n xs @ xs ! n # drop (Suc n) xs"
    using assms(1) by (rule id_take_nth_drop)
  then have "sum_list (map f xs) =
      sum_list (map f (take n xs)) + f (xs ! n) + sum_list (map f (drop (Suc n) xs))"
    by (metis add.assoc list.simps(9) map_append sum_list.Cons sum_list_append)
  with assms(2) show ?thesis by simp
qed

text \<open>
  C8. In the active step, when the cursor points at a question, the progress shown is
  \<open>questions_completed / total_questions\<close>: the total is the sum of the question
  counts of all sub-quizzes, and the completed count is the sum of the question counts
  of the sub-quizzes before the current one plus the question index. The completed
  count is below the total, so the quotient is defined and less than one.
\<close>

theorem taker_mode_active_progress:
  assumes "current_subquiz_index st < length (sub_quizzes st)"
      and "current_question_index st
             < length (questions (sub_quizzes st ! current_subquiz_index st))"
  shows "taker_mode_active st =
           ShowQuestion
             (sum_list (map (\<lambda>sq. length (questions sq))
                  (take (current_subquiz_index st) (sub_quizzes st)))
                + current_question_index st)
             (sum_list (map (\<lambda>sq. length (questions sq)) (sub_quizzes st)))
             (questions (sub_quizzes st ! current_subquiz_index st)
                ! current_question_index st)
       \<and> questions_completed (taker_mode_active st) < total_questions (taker_mode_active st)"
proof -
  let ?sqs = "sub_quizzes st" and ?i = "current_subquiz_index st"
    and ?j = "current_question_index st"
  have le: "?i \<le> length ?sqs" using assms(1) by simp
  have eq: "sum_list (map (\<lambda>i. length (questions (?sqs ! i))) [0..<?i])
      = sum_list (map (\<lambda>sq. length (questions sq)) (take ?i ?sqs))"
    using le by (rule sum_list_nth_upt_take)
  have view: "taker_mode_active st =
      ShowQuestion
        (sum_list (map (\<lambda>sq. length (questions sq)) (take ?i ?sqs)) + ?j)
        (sum_list (map (\<lambda>sq. length (questions sq)) ?sqs))
        (questions (?sqs ! ?i) ! ?j)"
    using assms eq by (simp add: taker_mode_active_def Let_def)
  have "sum_list (map (\<lambda>sq. length (questions sq)) (take ?i ?sqs)) + ?j
      < sum_list (map (\<lambda>sq. length (questions sq)) ?sqs)"
    using assms by (rule sum_list_take_nth_less)
  with view show ?thesis by simp
qed

theorem taker_mode_active_progress_witness:
  "map (\<lambda>sq. length (questions sq)) (sub_quizzes progress_state) = [3, 2]
   \<and> current_subquiz_index progress_state = 1
   \<and> current_question_index progress_state = 1
   \<and> taker_mode_active progress_state = ShowQuestion 4 5 q_multi_unmarked"
proof -
  have a: "current_subquiz_index progress_state < length (sub_quizzes progress_state)"
    by (simp add: progress_state_def)
  have b: "current_question_index progress_state
      < length (questions (sub_quizzes progress_state ! current_subquiz_index progress_state))"
    by (simp add: progress_state_def)
  have "taker_mode_active progress_state = ShowQuestion 4 5 q_multi_unmarked"
    using taker_mode_active_progress[OF a b] by (simp add: progress_state_def)
  then show ?thesis by (simp add: progress_state_def)
qed

section \<open>Results on single statements\<close>

lemma clear_iff: "clear fault a n \<longleftrightarrow> (\<forall>k. a \<le> k \<and> k < a + n \<longrightarrow> \<not> fault k)"
  by (auto simp: clear_def list_all_iff)

lemma clear_0 [simp]: "clear fault a 0"
  by (simp add: clear_def)

lemma clear_Suc: "clear fault a (Suc n) = (\<not> fault a \<and> clear fault (Suc a) n)"
proof -
  have "[a..<a + Suc n] = a # [Suc a..<Suc a + n]"
    using upt_conv_Cons[of a "a + Suc n"] by simp
  then show ?thesis by (simp add: clear_def)
qed

lemma clear_add: "clear fault a (m + n) = (clear fault a m \<and> clear fault (a + m) n)"
proof -
  have "[a..<a + (m + n)] = [a..<a + m] @ [a + m..<a + m + n]"
    using upt_add_eq_append[of a "a + m" n] by (simp add: add.assoc)
  then show ?thesis by (simp add: clear_def)
qed

lemma clear_Suc_right: "clear fault a (Suc n) = (clear fault a n \<and> \<not> fault (a + n))"
  by (simp add: clear_def)

lemma quiz_part_same_refl [simp]: "quiz_part_same d d"
  by (simp add: quiz_part_same_def)

lemma quiz_part_same_trans:
  "quiz_part_same d d' \<Longrightarrow> quiz_part_same d' d'' \<Longrightarrow> quiz_part_same d d''"
  by (simp add: quiz_part_same_def)

lemma insert_Choices_Inl:
  "insert_Choices fault q t i cur = Inl e \<Longrightarrow> e = Error \<and> fault (executed cur)"
  by (simp add: insert_Choices_def Let_def split: if_splits)

lemma insert_Choices_Inr:
  assumes "insert_Choices fault q t i cur = Inr cur'"
  shows "\<not> fault (executed cur)"
    and "executed cur' = Suc (executed cur)"
    and "Choices (db cur') = Choices (db cur) @
           [\<lparr>ChoiceID = next_ChoiceID (db cur), c_QuestionID = q,
             Choice_Text = t, Is_Correct = i\<rparr>]"
    and "Questions (db cur') = Questions (db cur)"
    and "SubQuizzes (db cur') = SubQuizzes (db cur)"
    and "next_QuestionID (db cur') = next_QuestionID (db cur)"
    and "next_SubQuizID (db cur') = next_SubQuizID (db cur)"
    and "quiz_part_same (db cur) (db cur')"
  using assms
  by (auto simp: insert_Choices_def Let_def quiz_part_same_def split: if_splits)

lemma insert_Questions_Inl:
  "insert_Questions fault s t ty p i cur = Inl e \<Longrightarrow> e = Error \<and> fault (executed cur)"
  by (simp add: insert_Questions_def Let_def split: if_splits)

lemma insert_Questions_Inr:
  assumes "insert_Questions fault s t ty p i cur = Inr cur'"
  shows "\<not> fault (executed cur)"
    and "executed cur' = Suc (executed cur)"
    and "lastrowid cur' = next_QuestionID (db cur)"
    and "Questions (db cur') = Questions (db cur) @
           [\<lparr>QuestionID = next_QuestionID (db cur), q_SubQuizID = s,
             Question_Text = t, Question_Type = ty, Points = p, q_Order_Index = i\<rparr>]"
    and "Choices (db cur') = Choices (db cur)"
    and "SubQuizzes (db cur') = SubQuizzes (db cur)"
    and "next_QuestionID (db cur') = Suc (next_QuestionID (db cur))"
    and "next_SubQuizID (db cur') = next_SubQuizID (db cur)"
    and "quiz_part_same (db cur) (db cur')"
  using assms
  by (auto simp: insert_Questions_def Let_def quiz_part_same_def split: if_splits)

lemma insert_SubQuizzes_Inl:
  "insert_SubQuizzes fault qz t i cur = Inl e \<Longrightarrow> e = Error \<and> fault (executed cur)"
  by (simp add: insert_SubQuizzes_def Let_def split: if_splits)

lemma insert_SubQuizzes_Inr:
  assumes "insert_SubQuizzes fault qz t i cur = Inr cur'"
  shows "\<not> fault (executed cur)"
    and "executed cur' = Suc (executed cur)"
    and "lastrowid cur' = next_SubQuizID (db cur)"
    and "SubQuizzes (db cur') = SubQuizzes (db cur) @
           [\<lparr>SubQuizID = next_SubQuizID (db cur), sq_QuizID = qz,
             sq_Title = t, sq_Order_Index = i\<rparr>]"
    and "Questions (db cur') = Questions (db cur)"
    and "Choices (db cur') = Choices (db cur)"
    and "next_QuestionID (db cur') = next_QuestionID (db cur)"
    and "next_SubQuizID (db cur') = Suc (next_SubQuizID (db cur))"
    and "quiz_part_same (db cur) (db cur')"
  using assms
  by (auto simp: insert_SubQuizzes_def Let_def quiz_part_same_def split: if_splits)

lemma insert_Quizzes_Inl:
  "insert_Quizzes fault c t code cur = Inl e \<Longrightarrow>
     e = Error \<and> (fault (executed cur)
        \<or> (Access_Code_unique (db cur) \<and> code \<in> set (map Access_Code (Quizzes (db cur)))))"
  by (simp add: insert_Quizzes_def Let_def split: if_splits)

lemma insert_Quizzes_Inr:
  assumes "insert_Quizzes fault c t code cur = Inr cur'"
  shows "\<not> fault (executed cur)"
    and "Access_Code_unique (db cur) \<Longrightarrow> code \<notin> set (map Access_Code (Quizzes (db cur)))"
    and "executed cur' = Suc (executed cur)"
    and "lastrowid cur' = next_QuizID (db cur)"
    and "Quizzes (db cur') = Quizzes (db cur) @
           [\<lparr>QuizID = next_QuizID (db cur), CreatorUserID = c, Title = t,
             Access_Code = code\<rparr>]"
    and "SubQuizzes (db cur') = SubQuizzes (db cur)"
    and "Questions (db cur') = Questions (db cur)"
    and "Choices (db cur') = Choices (db cur)"
    and "next_QuizID (db cur') = Suc (next_QuizID (db cur))"
    and "next_SubQuizID (db cur') = next_SubQuizID (db cur)"
    and "next_QuestionID (db cur') = next_QuestionID (db cur)"
    and "Access_Code_unique (db cur') = Access_Code_unique (db cur)"
    and "QuizTakers (db cur') = QuizTakers (db cur)"
    and "Answers (db cur') = Answers (db cur)"
    and "next_TakerID (db cur') = next_TakerID (db cur)"
  using assms
  by (auto simp: insert_Quizzes_def Let_def split: if_splits)

section \<open>Results on the loops of \<^verbatim>\<open>save_quiz\<close>: which statements run\<close>

lemma save_choices_Inl:
  "save_choices fault qid cs cur = Inl e \<Longrightarrow>
     e = Error \<and> \<not> clear fault (executed cur) (length cs)"
proof (induction cs arbitrary: cur)
  case Nil
  then show ?case by simp
next
  case (Cons c cs)
  show ?case
  proof (cases "insert_Choices fault qid (c_text c) (is_correct_int (is_correct c)) cur")
    case (Inl e')
    with Cons.prems have "e' = e" by simp
    with insert_Choices_Inl[OF Inl] show ?thesis by (simp add: clear_Suc)
  next
    case (Inr cur1)
    with Cons.prems have r: "save_choices fault qid cs cur1 = Inl e" by simp
    from Cons.IH[OF r] insert_Choices_Inr(2)[OF Inr] show ?thesis
      by (simp add: clear_Suc)
  qed
qed

lemma save_choices_Inr:
  "save_choices fault qid cs cur = Inr cur' \<Longrightarrow>
     clear fault (executed cur) (length cs)
     \<and> executed cur' = executed cur + length cs
     \<and> Questions (db cur') = Questions (db cur)
     \<and> SubQuizzes (db cur') = SubQuizzes (db cur)
     \<and> next_QuestionID (db cur') = next_QuestionID (db cur)
     \<and> next_SubQuizID (db cur') = next_SubQuizID (db cur)
     \<and> quiz_part_same (db cur) (db cur')"
proof (induction cs arbitrary: cur)
  case Nil
  then show ?case by simp
next
  case (Cons c cs)
  from Cons.prems obtain cur1 where
    i: "insert_Choices fault qid (c_text c) (is_correct_int (is_correct c)) cur = Inr cur1"
    and r: "save_choices fault qid cs cur1 = Inr cur'"
    by (auto split: sum.splits)
  note f = insert_Choices_Inr[OF i]
  note ih = Cons.IH[OF r]
  have "quiz_part_same (db cur) (db cur')"
    using f(8) ih by (blast intro: quiz_part_same_trans)
  with f ih show ?case by (simp add: clear_Suc)
qed


lemma question_inserts_Nil [simp]: "question_inserts [] = 0"
  by (simp add: question_inserts_def)

lemma subquiz_inserts_Nil [simp]: "subquiz_inserts [] = 0"
  by (simp add: subquiz_inserts_def)

lemma question_inserts_Cons:
  "question_inserts (q # qs) = Suc (choice_inserts q + question_inserts qs)"
  by (simp add: question_inserts_def)

lemma subquiz_inserts_Cons:
  "subquiz_inserts (sq # sqs) = Suc (question_inserts (questions sq) + subquiz_inserts sqs)"
  by (simp add: subquiz_inserts_def)

text \<open>The choices step of one question, as \<open>save_questions\<close> runs it.\<close>

lemma choices_step_Inl:
  assumes "(if q_type q \<noteq> ''OPEN_TEXT'' then save_choices fault qid (choices q) cur
            else Inr cur) = Inl e"
  shows "e = Error \<and> \<not> clear fault (executed cur) (choice_inserts q)"
  using assms save_choices_Inl[of fault qid "choices q" cur e]
  by (simp add: choice_inserts_def split: if_splits)

lemma choices_step_Inr:
  assumes "(if q_type q \<noteq> ''OPEN_TEXT'' then save_choices fault qid (choices q) cur
            else Inr cur) = Inr cur'"
  shows "clear fault (executed cur) (choice_inserts q)
     \<and> executed cur' = executed cur + choice_inserts q
     \<and> Questions (db cur') = Questions (db cur)
     \<and> SubQuizzes (db cur') = SubQuizzes (db cur)
     \<and> next_QuestionID (db cur') = next_QuestionID (db cur)
     \<and> next_SubQuizID (db cur') = next_SubQuizID (db cur)
     \<and> quiz_part_same (db cur) (db cur')"
proof (cases "q_type q \<noteq> ''OPEN_TEXT''")
  case True
  with assms have "save_choices fault qid (choices q) cur = Inr cur'" by simp
  from save_choices_Inr[OF this] True show ?thesis by (simp add: choice_inserts_def)
next
  case False
  with assms have "cur' = cur" by simp
  with False show ?thesis by (simp add: choice_inserts_def)
qed

lemma save_questions_Inl:
  "save_questions fault sqid idx qs cur = Inl e \<Longrightarrow>
     e = Error \<and> \<not> clear fault (executed cur) (question_inserts qs)"
proof (induction qs arbitrary: cur idx)
  case Nil
  then show ?case by simp
next
  case (Cons q qs)
  show ?case
  proof (cases "insert_Questions fault sqid (q_text q) (q_type q) (points q) idx cur")
    case (Inl e')
    with Cons.prems have "e' = e" by simp
    with insert_Questions_Inl[OF Inl] show ?thesis
      by (simp add: clear_Suc question_inserts_Cons)
  next
    case (Inr cur1)
    note f = insert_Questions_Inr[OF Inr]
    show ?thesis
    proof (cases "if q_type q \<noteq> ''OPEN_TEXT''
                  then save_choices fault (lastrowid cur1) (choices q) cur1 else Inr cur1")
      case (Inl e')
      with Cons.prems Inr have "e' = e" by simp
      with choices_step_Inl[OF Inl] f(1,2) show ?thesis
        by (simp add: clear_Suc clear_add question_inserts_Cons)
    next
      case (Inr cur2)
      with Cons.prems \<open>insert_Questions fault sqid (q_text q) (q_type q) (points q) idx cur = Inr cur1\<close>
      have r: "save_questions fault sqid (Suc idx) qs cur2 = Inl e" by simp
      from Cons.IH[OF r] choices_step_Inr[OF Inr] f(1,2) show ?thesis
        by (simp add: clear_Suc clear_add question_inserts_Cons)
    qed
  qed
qed

lemma save_questions_Inr:
  "save_questions fault sqid idx qs cur = Inr cur' \<Longrightarrow>
     clear fault (executed cur) (question_inserts qs)
     \<and> executed cur' = executed cur + question_inserts qs
     \<and> SubQuizzes (db cur') = SubQuizzes (db cur)
     \<and> next_QuestionID (db cur') = next_QuestionID (db cur) + length qs
     \<and> next_SubQuizID (db cur') = next_SubQuizID (db cur)
     \<and> quiz_part_same (db cur) (db cur')"
proof (induction qs arbitrary: cur idx)
  case Nil
  then show ?case by simp
next
  case (Cons q qs)
  from Cons.prems obtain cur1 cur2 where
    i: "insert_Questions fault sqid (q_text q) (q_type q) (points q) idx cur = Inr cur1"
    and c: "(if q_type q \<noteq> ''OPEN_TEXT''
             then save_choices fault (lastrowid cur1) (choices q) cur1 else Inr cur1) = Inr cur2"
    and r: "save_questions fault sqid (Suc idx) qs cur2 = Inr cur'"
    by (auto split: sum.splits)
  note f = insert_Questions_Inr[OF i]
  note g = choices_step_Inr[OF c]
  note ih = Cons.IH[OF r]
  have "quiz_part_same (db cur) (db cur')"
    using f(9) g ih by (blast intro: quiz_part_same_trans)
  with f g ih show ?case
    by (simp add: clear_Suc clear_add question_inserts_Cons)
qed

lemma save_subquizzes_Inl:
  "save_subquizzes fault qz idx sqs cur = Inl e \<Longrightarrow>
     e = Error \<and> \<not> clear fault (executed cur) (subquiz_inserts sqs)"
proof (induction sqs arbitrary: cur idx)
  case Nil
  then show ?case by simp
next
  case (Cons sq sqs)
  show ?case
  proof (cases "insert_SubQuizzes fault qz (sq_title sq) idx cur")
    case (Inl e')
    with Cons.prems have "e' = e" by simp
    with insert_SubQuizzes_Inl[OF Inl] show ?thesis
      by (simp add: clear_Suc subquiz_inserts_Cons)
  next
    case (Inr cur1)
    note i = Inr
    note f = insert_SubQuizzes_Inr[OF i]
    show ?thesis
    proof (cases "save_questions fault (lastrowid cur1) 0 (questions sq) cur1")
      case (Inl e')
      with Cons.prems i have "e' = e" by simp
      with save_questions_Inl[OF Inl] f(1,2) show ?thesis
        by (simp add: clear_Suc clear_add subquiz_inserts_Cons)
    next
      case (Inr cur2)
      with Cons.prems i
      have r: "save_subquizzes fault qz (Suc idx) sqs cur2 = Inl e" by simp
      from Cons.IH[OF r] save_questions_Inr[OF Inr] f(1,2) show ?thesis
        by (simp add: clear_Suc clear_add subquiz_inserts_Cons)
    qed
  qed
qed

lemma save_subquizzes_Inr:
  "save_subquizzes fault qz idx sqs cur = Inr cur' \<Longrightarrow>
     clear fault (executed cur) (subquiz_inserts sqs)
     \<and> executed cur' = executed cur + subquiz_inserts sqs
     \<and> next_SubQuizID (db cur') = next_SubQuizID (db cur) + length sqs
     \<and> next_QuestionID (db cur) \<le> next_QuestionID (db cur')
     \<and> quiz_part_same (db cur) (db cur')"
proof (induction sqs arbitrary: cur idx)
  case Nil
  then show ?case by simp
next
  case (Cons sq sqs)
  from Cons.prems obtain cur1 cur2 where
    i: "insert_SubQuizzes fault qz (sq_title sq) idx cur = Inr cur1"
    and c: "save_questions fault (lastrowid cur1) 0 (questions sq) cur1 = Inr cur2"
    and r: "save_subquizzes fault qz (Suc idx) sqs cur2 = Inr cur'"
    by (auto split: sum.splits)
  note f = insert_SubQuizzes_Inr[OF i]
  note g = save_questions_Inr[OF c]
  note ih = Cons.IH[OF r]
  have "quiz_part_same (db cur) (db cur')"
    using f(9) g ih by (blast intro: quiz_part_same_trans)
  with f g ih show ?case
    by (simp add: clear_Suc clear_add subquiz_inserts_Cons)
qed

text \<open>
  The inserts of \<^verbatim>\<open>save_quiz\<close> succeed exactly when no statement among them is
  made to fail and the store does not reject the access code.
\<close>

lemma save_quiz_inserts_Inl:
  assumes "save_quiz_inserts fault code t sqs cur = Inl e"
  shows "e = Error
     \<and> (\<not> clear fault (executed cur) (quiz_inserts sqs)
        \<or> (Access_Code_unique (db cur) \<and> code \<in> set (map Access_Code (Quizzes (db cur)))))"
proof (cases "insert_Quizzes fault user_id t code cur")
  case (Inl e')
  with assms have "e' = e" by (simp add: save_quiz_inserts_def)
  with insert_Quizzes_Inl[OF Inl] show ?thesis
    by (auto simp: clear_Suc quiz_inserts_def)
next
  case (Inr cur1)
  with assms have r: "save_subquizzes fault (lastrowid cur1) 0 sqs cur1 = Inl e"
    by (simp add: save_quiz_inserts_def)
  from save_subquizzes_Inl[OF r] insert_Quizzes_Inr(1,3)[OF Inr] show ?thesis
    by (simp add: clear_Suc quiz_inserts_def)
qed

lemma save_quiz_inserts_Inr:
  assumes "save_quiz_inserts fault code t sqs cur = Inr cur'"
  shows "clear fault (executed cur) (quiz_inserts sqs)
     \<and> (Access_Code_unique (db cur) \<longrightarrow> code \<notin> set (map Access_Code (Quizzes (db cur))))
     \<and> executed cur' = executed cur + quiz_inserts sqs
     \<and> Quizzes (db cur') = Quizzes (db cur) @
           [\<lparr>QuizID = next_QuizID (db cur), CreatorUserID = user_id, Title = t,
             Access_Code = code\<rparr>]
     \<and> next_QuizID (db cur') = Suc (next_QuizID (db cur))
     \<and> Access_Code_unique (db cur') = Access_Code_unique (db cur)
     \<and> QuizTakers (db cur') = QuizTakers (db cur)
     \<and> Answers (db cur') = Answers (db cur)
     \<and> next_TakerID (db cur') = next_TakerID (db cur)"
proof -
  from assms obtain cur1 where
    i: "insert_Quizzes fault user_id t code cur = Inr cur1"
    and r: "save_subquizzes fault (lastrowid cur1) 0 sqs cur1 = Inr cur'"
    by (auto simp: save_quiz_inserts_def split: sum.splits)
  note f = insert_Quizzes_Inr[OF i]
  note g = save_subquizzes_Inr[OF r]
  from g have "quiz_part_same (db cur1) (db cur')" by simp
  with f g show ?thesis
    by (simp add: clear_Suc quiz_inserts_def quiz_part_same_def)
qed

section \<open>Results on the loops of \<^verbatim>\<open>save_quiz\<close>: which rows they add\<close>

lemma question_content_load:
  "question_content (load_question d r) = question_view (Choices d) r"
  by (simp add: question_content_def load_question_def question_view_def load_choices_def
      choice_content_def choice_view_def comp_def)

lemma subquiz_content_load:
  "subquiz_content (load_subquiz d r) = subquiz_view (Questions d) (Choices d) r"
  by (simp add: subquiz_content_def load_subquiz_def subquiz_view_def question_content_load
      comp_def)

lemma question_view_append_left:
  "\<forall>c\<in>set xs. c_QuestionID c \<noteq> QuestionID r \<Longrightarrow>
   question_view (xs @ ys) r = question_view ys r"
  by (simp add: question_view_def)

lemma question_view_append_right:
  "\<forall>c\<in>set ys. c_QuestionID c \<noteq> QuestionID r \<Longrightarrow>
   question_view (xs @ ys) r = question_view xs r"
  by (simp add: question_view_def)

lemma save_choices_rows:
  "save_choices fault qid cs cur = Inr cur' \<Longrightarrow>
     \<exists>rows. Choices (db cur') = Choices (db cur) @ rows
        \<and> (\<forall>r\<in>set rows. c_QuestionID r = qid)
        \<and> map choice_view rows = map choice_content cs"
proof (induction cs arbitrary: cur)
  case Nil
  then show ?case by simp
next
  case (Cons c cs)
  from Cons.prems obtain cur1 where
    i: "insert_Choices fault qid (c_text c) (is_correct_int (is_correct c)) cur = Inr cur1"
    and r: "save_choices fault qid cs cur1 = Inr cur'"
    by (auto split: sum.splits)
  let ?r0 = "\<lparr>ChoiceID = next_ChoiceID (db cur), c_QuestionID = qid,
              Choice_Text = c_text c, Is_Correct = is_correct_int (is_correct c)\<rparr>"
  from Cons.IH[OF r] obtain rows where
    rows: "Choices (db cur') = Choices (db cur1) @ rows"
      "\<forall>r\<in>set rows. c_QuestionID r = qid" "map choice_view rows = map choice_content cs"
    by blast
  have "Choices (db cur') = Choices (db cur) @ (?r0 # rows)"
    using rows(1) insert_Choices_Inr(3)[OF i] by simp
  moreover have "\<forall>r\<in>set (?r0 # rows). c_QuestionID r = qid"
    using rows(2) by simp
  moreover have "map choice_view (?r0 # rows) = map choice_content (c # cs)"
    using rows(3) by (simp add: choice_view_def choice_content_def is_correct_int_def)
  ultimately show ?case by blast
qed

lemma choices_step_rows:
  assumes "(if q_type q \<noteq> ''OPEN_TEXT'' then save_choices fault qid (choices q) cur
            else Inr cur) = Inr cur'"
  shows "\<exists>rows. Choices (db cur') = Choices (db cur) @ rows
        \<and> (\<forall>r\<in>set rows. c_QuestionID r = qid)
        \<and> map choice_view rows = map choice_content (choices (persisted_question q))
        \<and> length rows = choice_inserts q"
proof (cases "q_type q \<noteq> ''OPEN_TEXT''")
  case True
  with assms have "save_choices fault qid (choices q) cur = Inr cur'" by simp
  from save_choices_rows[OF this] obtain rows where
    rows: "Choices (db cur') = Choices (db cur) @ rows"
      "\<forall>r\<in>set rows. c_QuestionID r = qid"
      "map choice_view rows = map choice_content (choices q)"
    by blast
  from rows(3) have "length rows = length (choices q)" by (rule map_eq_imp_length_eq)
  with rows True show ?thesis
    by (auto simp: persisted_question_def choice_inserts_def)
next
  case False
  with assms have "cur' = cur" by simp
  with False show ?thesis by (simp add: persisted_question_def choice_inserts_def)
qed

lemma question_view_own_choices:
  assumes "\<forall>c\<in>set rows. c_QuestionID c = QuestionID r"
    and "map choice_view rows = map choice_content (choices (persisted_question q))"
    and "Question_Text r = q_text q" and "Question_Type r = q_type q"
    and "Points r = points q"
  shows "question_view rows r = question_content (persisted_question q)"
proof -
  have "filter (\<lambda>c. c_QuestionID c = QuestionID r) rows = rows"
    using assms(1) by (simp add: filter_id_conv)
  with assms(2-5) show ?thesis
    by (simp add: question_view_def question_content_def persisted_question_def)
qed

lemma save_questions_rows:
  "save_questions fault sqid idx qs cur = Inr cur' \<Longrightarrow>
     \<exists>qrows crows.
        Questions (db cur') = Questions (db cur) @ qrows
        \<and> Choices (db cur') = Choices (db cur) @ crows
        \<and> (\<forall>r\<in>set qrows. q_SubQuizID r = sqid
              \<and> next_QuestionID (db cur) \<le> QuestionID r
              \<and> QuestionID r < next_QuestionID (db cur'))
        \<and> (\<forall>c\<in>set crows. next_QuestionID (db cur) \<le> c_QuestionID c
              \<and> c_QuestionID c < next_QuestionID (db cur'))
        \<and> map q_Order_Index qrows = [idx..<idx + length qs]
        \<and> map (question_view crows) qrows = map (question_content \<circ> persisted_question) qs
        \<and> length crows = sum_list (map choice_inserts qs)"
proof (induction qs arbitrary: cur idx)
  case Nil
  then show ?case by simp
next
  case (Cons q qs)
  from Cons.prems obtain cur1 cur2 where
    i: "insert_Questions fault sqid (q_text q) (q_type q) (points q) idx cur = Inr cur1"
    and c: "(if q_type q \<noteq> ''OPEN_TEXT''
             then save_choices fault (lastrowid cur1) (choices q) cur1 else Inr cur1) = Inr cur2"
    and r: "save_questions fault sqid (Suc idx) qs cur2 = Inr cur'"
    by (auto split: sum.splits)
  let ?n = "next_QuestionID (db cur)"
  let ?r0 = "\<lparr>QuestionID = ?n, q_SubQuizID = sqid, Question_Text = q_text q,
              Question_Type = q_type q, Points = points q, q_Order_Index = idx\<rparr>"
  note f = insert_Questions_Inr[OF i]
  note g = choices_step_Inr[OF c]
  note h = save_questions_Inr[OF r]
  have n2: "next_QuestionID (db cur2) = Suc ?n" using f(7) g by simp
  have n': "next_QuestionID (db cur') = Suc ?n + length qs" using h n2 by simp
  from choices_step_rows[OF c] f(3) obtain rows1 where
    rows1: "Choices (db cur2) = Choices (db cur1) @ rows1"
      "\<forall>c\<in>set rows1. c_QuestionID c = ?n"
      "map choice_view rows1 = map choice_content (choices (persisted_question q))"
      "length rows1 = choice_inserts q"
    by auto
  from Cons.IH[OF r] n2 obtain qrows crows where
    ih: "Questions (db cur') = Questions (db cur2) @ qrows"
      "Choices (db cur') = Choices (db cur2) @ crows"
      "\<forall>r\<in>set qrows. q_SubQuizID r = sqid \<and> Suc ?n \<le> QuestionID r
          \<and> QuestionID r < next_QuestionID (db cur')"
      "\<forall>c\<in>set crows. Suc ?n \<le> c_QuestionID c \<and> c_QuestionID c < next_QuestionID (db cur')"
      "map q_Order_Index qrows = [Suc idx..<Suc idx + length qs]"
      "map (question_view crows) qrows = map (question_content \<circ> persisted_question) qs"
      "length crows = sum_list (map choice_inserts qs)"
    by auto
  have a: "Questions (db cur') = Questions (db cur) @ (?r0 # qrows)"
    using ih(1) g f(4) by simp
  have b: "Choices (db cur') = Choices (db cur) @ (rows1 @ crows)"
    using ih(2) rows1(1) f(5) by simp
  have c1: "\<forall>r\<in>set (?r0 # qrows). q_SubQuizID r = sqid \<and> ?n \<le> QuestionID r
          \<and> QuestionID r < next_QuestionID (db cur')"
    using ih(3) n' by auto
  have c2: "\<forall>c\<in>set (rows1 @ crows). ?n \<le> c_QuestionID c
          \<and> c_QuestionID c < next_QuestionID (db cur')"
    using ih(4) rows1(2) n' by auto
  have d: "map q_Order_Index (?r0 # qrows) = [idx..<idx + length (q # qs)]"
    using ih(5) upt_conv_Cons[of idx "idx + length (q # qs)"] by simp
  have v0: "question_view (rows1 @ crows) ?r0 = question_content (persisted_question q)"
  proof -
    have "\<forall>c\<in>set crows. c_QuestionID c \<noteq> QuestionID ?r0" using ih(4) by auto
    then have "question_view (rows1 @ crows) ?r0 = question_view rows1 ?r0"
      by (rule question_view_append_right)
    also have "\<dots> = question_content (persisted_question q)"
      using rows1(2,3) by (intro question_view_own_choices) simp_all
    finally show ?thesis .
  qed
  have v1: "map (question_view (rows1 @ crows)) qrows = map (question_view crows) qrows"
  proof (rule map_cong[OF refl])
    fix r assume "r \<in> set qrows"
    with ih(3) have "Suc ?n \<le> QuestionID r" by blast
    with rows1(2) have "\<forall>c\<in>set rows1. c_QuestionID c \<noteq> QuestionID r" by auto
    then show "question_view (rows1 @ crows) r = question_view crows r"
      by (rule question_view_append_left)
  qed
  have e: "map (question_view (rows1 @ crows)) (?r0 # qrows)
      = map (question_content \<circ> persisted_question) (q # qs)"
    using v0 v1 ih(6) by simp
  have l: "length (rows1 @ crows) = sum_list (map choice_inserts (q # qs))"
    using rows1(4) ih(7) by simp
  from a b c1 c2 d e l show ?case by blast
qed

lemma subquiz_view_own_questions:
  assumes "\<forall>q\<in>set qrows1. q_SubQuizID q = SubQuizID r"
    and "\<forall>q\<in>set qrows2. q_SubQuizID q \<noteq> SubQuizID r"
    and "sorted (map q_Order_Index qrows1)"
    and "\<forall>q\<in>set qrows1. \<forall>c\<in>set crows2. c_QuestionID c \<noteq> QuestionID q"
  shows "subquiz_view (qrows1 @ qrows2) (crows1 @ crows2) r
       = (sq_Title r, map (question_view crows1) qrows1)"
proof -
  have "filter (\<lambda>q. q_SubQuizID q = SubQuizID r) qrows1 = qrows1"
    using assms(1) by (simp add: filter_id_conv)
  moreover have "filter (\<lambda>q. q_SubQuizID q = SubQuizID r) qrows2 = []"
    using assms(2) by (simp add: filter_empty_conv)
  ultimately have fl: "filter (\<lambda>q. q_SubQuizID q = SubQuizID r) (qrows1 @ qrows2) = qrows1"
    by simp
  have so: "sort_key q_Order_Index qrows1 = qrows1"
    using assms(3) by (rule sort_key_id_if_sorted)
  have "map (question_view (crows1 @ crows2)) qrows1 = map (question_view crows1) qrows1"
  proof (rule map_cong[OF refl])
    fix q assume "q \<in> set qrows1"
    with assms(4) have "\<forall>c\<in>set crows2. c_QuestionID c \<noteq> QuestionID q" by blast
    then show "question_view (crows1 @ crows2) q = question_view crows1 q"
      by (rule question_view_append_right)
  qed
  with fl so show ?thesis by (simp add: subquiz_view_def)
qed

lemma subquiz_view_later:
  assumes "\<forall>q\<in>set qrows1. q_SubQuizID q \<noteq> SubQuizID r"
    and "\<forall>q\<in>set qrows2. \<forall>c\<in>set crows1. c_QuestionID c \<noteq> QuestionID q"
  shows "subquiz_view (qrows1 @ qrows2) (crows1 @ crows2) r = subquiz_view qrows2 crows2 r"
proof -
  let ?sel = "sort_key q_Order_Index (filter (\<lambda>q. q_SubQuizID q = SubQuizID r) qrows2)"
  have "filter (\<lambda>q. q_SubQuizID q = SubQuizID r) qrows1 = []"
    using assms(1) by (simp add: filter_empty_conv)
  then have fl: "filter (\<lambda>q. q_SubQuizID q = SubQuizID r) (qrows1 @ qrows2)
      = filter (\<lambda>q. q_SubQuizID q = SubQuizID r) qrows2"
    by simp
  have "map (question_view (crows1 @ crows2)) ?sel = map (question_view crows2) ?sel"
  proof (rule map_cong[OF refl])
    fix q assume "q \<in> set ?sel"
    then have "q \<in> set qrows2" by simp
    with assms(2) have "\<forall>c\<in>set crows1. c_QuestionID c \<noteq> QuestionID q" by blast
    then show "question_view (crows1 @ crows2) q = question_view crows2 q"
      by (rule question_view_append_left)
  qed
  with fl show ?thesis by (simp add: subquiz_view_def)
qed

lemma save_subquizzes_rows:
  "save_subquizzes fault qz idx sqs cur = Inr cur' \<Longrightarrow>
     \<exists>sqrows qrows crows.
        SubQuizzes (db cur') = SubQuizzes (db cur) @ sqrows
        \<and> Questions (db cur') = Questions (db cur) @ qrows
        \<and> Choices (db cur') = Choices (db cur) @ crows
        \<and> (\<forall>r\<in>set sqrows. sq_QuizID r = qz
              \<and> next_SubQuizID (db cur) \<le> SubQuizID r
              \<and> SubQuizID r < next_SubQuizID (db cur'))
        \<and> (\<forall>r\<in>set qrows. next_SubQuizID (db cur) \<le> q_SubQuizID r
              \<and> q_SubQuizID r < next_SubQuizID (db cur')
              \<and> next_QuestionID (db cur) \<le> QuestionID r
              \<and> QuestionID r < next_QuestionID (db cur'))
        \<and> (\<forall>c\<in>set crows. next_QuestionID (db cur) \<le> c_QuestionID c
              \<and> c_QuestionID c < next_QuestionID (db cur'))
        \<and> map sq_Order_Index sqrows = [idx..<idx + length sqs]
        \<and> map (subquiz_view qrows crows) sqrows = map (subquiz_content \<circ> persisted_subquiz) sqs
        \<and> length qrows = sum_list (map (\<lambda>sq. length (questions sq)) sqs)
        \<and> length crows = sum_list (map (\<lambda>sq. sum_list (map choice_inserts (questions sq))) sqs)
        \<and> map (\<lambda>r. map q_Order_Index (filter (\<lambda>q. q_SubQuizID q = SubQuizID r) qrows)) sqrows
            = map (\<lambda>sq. [0..<length (questions sq)]) sqs"
proof (induction sqs arbitrary: cur idx)
  case Nil
  then show ?case by simp
next
  case (Cons sq sqs)
  from Cons.prems obtain cur1 cur2 where
    i: "insert_SubQuizzes fault qz (sq_title sq) idx cur = Inr cur1"
    and c: "save_questions fault (lastrowid cur1) 0 (questions sq) cur1 = Inr cur2"
    and r: "save_subquizzes fault qz (Suc idx) sqs cur2 = Inr cur'"
    by (auto split: sum.splits)
  let ?s = "next_SubQuizID (db cur)" and ?n = "next_QuestionID (db cur)"
  let ?n2 = "next_QuestionID (db cur2)"
  let ?r0 = "\<lparr>SubQuizID = ?s, sq_QuizID = qz, sq_Title = sq_title sq, sq_Order_Index = idx\<rparr>"
  note f = insert_SubQuizzes_Inr[OF i]
  note g = save_questions_Inr[OF c]
  note h = save_subquizzes_Inr[OF r]
  have s2: "next_SubQuizID (db cur2) = Suc ?s" using f(8) g by simp
  have s': "next_SubQuizID (db cur') = Suc ?s + length sqs" using h s2 by simp
  have n2: "?n \<le> ?n2" using f(7) g by simp
  have n': "?n2 \<le> next_QuestionID (db cur')" using h by simp
  from save_questions_rows[OF c] f(3,7) obtain qrows1 crows1 where
    q1: "Questions (db cur2) = Questions (db cur1) @ qrows1"
      "Choices (db cur2) = Choices (db cur1) @ crows1"
      "\<forall>r\<in>set qrows1. q_SubQuizID r = ?s \<and> ?n \<le> QuestionID r \<and> QuestionID r < ?n2"
      "\<forall>c\<in>set crows1. ?n \<le> c_QuestionID c \<and> c_QuestionID c < ?n2"
      "map q_Order_Index qrows1 = [0..<0 + length (questions sq)]"
      "map (question_view crows1) qrows1
         = map (question_content \<circ> persisted_question) (questions sq)"
      "length crows1 = sum_list (map choice_inserts (questions sq))"
    by auto
  from Cons.IH[OF r] s2 obtain sqrows qrows crows where
    ih: "SubQuizzes (db cur') = SubQuizzes (db cur2) @ sqrows"
      "Questions (db cur') = Questions (db cur2) @ qrows"
      "Choices (db cur') = Choices (db cur2) @ crows"
      "\<forall>r\<in>set sqrows. sq_QuizID r = qz \<and> Suc ?s \<le> SubQuizID r
          \<and> SubQuizID r < next_SubQuizID (db cur')"
      "\<forall>r\<in>set qrows. Suc ?s \<le> q_SubQuizID r \<and> q_SubQuizID r < next_SubQuizID (db cur')
          \<and> ?n2 \<le> QuestionID r \<and> QuestionID r < next_QuestionID (db cur')"
      "\<forall>c\<in>set crows. ?n2 \<le> c_QuestionID c \<and> c_QuestionID c < next_QuestionID (db cur')"
      "map sq_Order_Index sqrows = [Suc idx..<Suc idx + length sqs]"
      "map (subquiz_view qrows crows) sqrows = map (subquiz_content \<circ> persisted_subquiz) sqs"
      "length qrows = sum_list (map (\<lambda>sq. length (questions sq)) sqs)"
      "length crows = sum_list (map (\<lambda>sq. sum_list (map choice_inserts (questions sq))) sqs)"
      "map (\<lambda>r. map q_Order_Index (filter (\<lambda>q. q_SubQuizID q = SubQuizID r) qrows)) sqrows
         = map (\<lambda>sq. [0..<length (questions sq)]) sqs"
    by auto
  have a1: "SubQuizzes (db cur') = SubQuizzes (db cur) @ (?r0 # sqrows)"
    using ih(1) g f(4) by simp
  have a2: "Questions (db cur') = Questions (db cur) @ (qrows1 @ qrows)"
    using ih(2) q1(1) f(5) by simp
  have a3: "Choices (db cur') = Choices (db cur) @ (crows1 @ crows)"
    using ih(3) q1(2) f(6) by simp
  have b1: "\<forall>r\<in>set (?r0 # sqrows). sq_QuizID r = qz \<and> ?s \<le> SubQuizID r
          \<and> SubQuizID r < next_SubQuizID (db cur')"
    using ih(4) s' by auto
  have b2: "\<forall>r\<in>set (qrows1 @ qrows). ?s \<le> q_SubQuizID r
          \<and> q_SubQuizID r < next_SubQuizID (db cur')
          \<and> ?n \<le> QuestionID r \<and> QuestionID r < next_QuestionID (db cur')"
    using ih(5) q1(3) s' n2 n' by fastforce
  have b3: "\<forall>c\<in>set (crows1 @ crows). ?n \<le> c_QuestionID c
          \<and> c_QuestionID c < next_QuestionID (db cur')"
    using ih(6) q1(4) n2 n' by fastforce
  have d: "map sq_Order_Index (?r0 # sqrows) = [idx..<idx + length (sq # sqs)]"
    using ih(7) upt_conv_Cons[of idx "idx + length (sq # sqs)"] by simp
  have v0: "subquiz_view (qrows1 @ qrows) (crows1 @ crows) ?r0
      = subquiz_content (persisted_subquiz sq)"
  proof -
    have "subquiz_view (qrows1 @ qrows) (crows1 @ crows) ?r0
        = (sq_Title ?r0, map (question_view crows1) qrows1)"
    proof (rule subquiz_view_own_questions)
      show "\<forall>q\<in>set qrows1. q_SubQuizID q = SubQuizID ?r0" using q1(3) by simp
      show "\<forall>q\<in>set qrows. q_SubQuizID q \<noteq> SubQuizID ?r0" using ih(5) by auto
      show "sorted (map q_Order_Index qrows1)" using q1(5) by simp
      show "\<forall>q\<in>set qrows1. \<forall>c\<in>set crows. c_QuestionID c \<noteq> QuestionID q"
        using q1(3) ih(6) by fastforce
    qed
    then show ?thesis
      using q1(6) by (simp add: subquiz_content_def persisted_subquiz_def comp_def)
  qed
  have v1: "map (subquiz_view (qrows1 @ qrows) (crows1 @ crows)) sqrows
      = map (subquiz_view qrows crows) sqrows"
  proof (rule map_cong[OF refl])
    fix r assume rin: "r \<in> set sqrows"
    show "subquiz_view (qrows1 @ qrows) (crows1 @ crows) r = subquiz_view qrows crows r"
    proof (rule subquiz_view_later)
      show "\<forall>q\<in>set qrows1. q_SubQuizID q \<noteq> SubQuizID r" using q1(3) ih(4) rin by fastforce
      show "\<forall>q\<in>set qrows. \<forall>c\<in>set crows1. c_QuestionID c \<noteq> QuestionID q"
        using q1(4) ih(5) by fastforce
    qed
  qed
  have e: "map (subquiz_view (qrows1 @ qrows) (crows1 @ crows)) (?r0 # sqrows)
      = map (subquiz_content \<circ> persisted_subquiz) (sq # sqs)"
    using v0 v1 ih(8) by simp
  have l1: "length (qrows1 @ qrows) = sum_list (map (\<lambda>sq. length (questions sq)) (sq # sqs))"
  proof -
    have "length qrows1 = length (questions sq)"
      using q1(5) map_eq_imp_length_eq[of q_Order_Index qrows1 id "[0..<0 + length (questions sq)]"]
      by simp
    with ih(9) show ?thesis by simp
  qed
  have l2: "length (crows1 @ crows)
      = sum_list (map (\<lambda>sq. sum_list (map choice_inserts (questions sq))) (sq # sqs))"
    using q1(7) ih(10) by simp
  have o0: "map q_Order_Index (filter (\<lambda>q. q_SubQuizID q = SubQuizID ?r0) (qrows1 @ qrows))
      = [0..<length (questions sq)]"
  proof -
    have "filter (\<lambda>q. q_SubQuizID q = SubQuizID ?r0) qrows1 = qrows1"
      using q1(3) by (simp add: filter_id_conv)
    moreover have "filter (\<lambda>q. q_SubQuizID q = SubQuizID ?r0) qrows = []"
      using ih(5) by (auto simp: filter_empty_conv)
    ultimately show ?thesis using q1(5) by simp
  qed
  have o1: "map (\<lambda>r. map q_Order_Index
                 (filter (\<lambda>q. q_SubQuizID q = SubQuizID r) (qrows1 @ qrows))) sqrows
      = map (\<lambda>r. map q_Order_Index (filter (\<lambda>q. q_SubQuizID q = SubQuizID r) qrows)) sqrows"
  proof (rule map_cong[OF refl])
    fix r assume rin: "r \<in> set sqrows"
    have "filter (\<lambda>q. q_SubQuizID q = SubQuizID r) qrows1 = []"
      using q1(3) ih(4) rin by (fastforce simp: filter_empty_conv)
    then show "map q_Order_Index (filter (\<lambda>q. q_SubQuizID q = SubQuizID r) (qrows1 @ qrows))
        = map q_Order_Index (filter (\<lambda>q. q_SubQuizID q = SubQuizID r) qrows)"
      by simp
  qed
  have o: "map (\<lambda>r. map q_Order_Index
                (filter (\<lambda>q. q_SubQuizID q = SubQuizID r) (qrows1 @ qrows))) (?r0 # sqrows)
      = map (\<lambda>sq. [0..<length (questions sq)]) (sq # sqs)"
    using o0 o1 ih(11) by simp
  from a1 a2 a3 b1 b2 b3 d e l1 l2 o show ?case by blast
qed

section \<open>Results on \<^verbatim>\<open>save_quiz\<close> and \<^verbatim>\<open>get_quiz_by_code\<close>\<close>

lemma executed_start_transaction [simp]: "executed (start_transaction d) = 0"
  by (simp add: start_transaction_def)

lemma db_start_transaction [simp]: "db (start_transaction d) = d"
  by (simp add: start_transaction_def)

lemma length_generate_access_code [simp]: "length (generate_access_code rng n) = n"
  by (simp add: generate_access_code_def)

lemma set_generate_access_code: "set (generate_access_code rng n) \<subseteq> set characters"
proof -
  have "0 < length characters" by (simp add: characters_def)
  then have "characters ! (rng i mod length characters) \<in> set characters" for i
    by (intro nth_mem) simp
  then show ?thesis by (auto simp: generate_access_code_def)
qed

text \<open>\<^verbatim>\<open>save_quiz\<close> with and without a connection.\<close>

lemma save_quiz_not_connected: "save_quiz False fault rng t sqs d = (d, NoConnection)"
  by (simp add: save_quiz_def)

lemma save_quiz_connected:
  "save_quiz True fault rng t sqs d =
     (case save_quiz_inserts fault (generate_access_code rng 6) t sqs (start_transaction d) of
        Inl e \<Rightarrow> (d, SaveFailed)
      | Inr cur \<Rightarrow> if fault (executed cur) then (d, SaveFailed)
                   else (db cur, Saved (generate_access_code rng 6)))"
  unfolding save_quiz_def Let_def commit_def
  by (cases "save_quiz_inserts fault (generate_access_code rng 6) t sqs (start_transaction d)")
    simp_all

text \<open>A committed save: what must have held, and where the new store comes from.\<close>

lemma save_quiz_Saved:
  assumes "save_quiz connected fault rng t sqs d = (d', Saved code)"
  shows "connected" and "code = generate_access_code rng 6"
    and "clear fault 0 (Suc (quiz_inserts sqs))"
    and "Access_Code_unique d \<Longrightarrow> code \<notin> set (map Access_Code (Quizzes d))"
    and "\<exists>cur. save_quiz_inserts fault code t sqs (start_transaction d) = Inr cur \<and> d' = db cur"
proof -
  let ?code = "generate_access_code rng 6"
  show c: "connected"
  proof (rule ccontr)
    assume "\<not> connected"
    with assms show False by (simp add: save_quiz_not_connected)
  qed
  with assms have s: "save_quiz True fault rng t sqs d = (d', Saved code)" by simp
  obtain cur where
    i: "save_quiz_inserts fault ?code t sqs (start_transaction d) = Inr cur"
  proof (cases "save_quiz_inserts fault ?code t sqs (start_transaction d)")
    case (Inl e)
    with s have False by (simp add: save_quiz_connected)
    then show ?thesis ..
  next
    case (Inr cur)
    then show ?thesis by (rule that)
  qed
  have nf: "\<not> fault (executed cur)"
  proof
    assume "fault (executed cur)"
    with s i show False by (simp add: save_quiz_connected)
  qed
  with s i have d': "d' = db cur" and code: "code = ?code"
    by (simp_all add: save_quiz_connected)
  show "code = ?code" by (rule code)
  note f = save_quiz_inserts_Inr[OF i]
  show "clear fault 0 (Suc (quiz_inserts sqs))"
    using f nf by (simp add: clear_Suc_right)
  show "code \<notin> set (map Access_Code (Quizzes d))" if "Access_Code_unique d"
    using f that code by simp
  show "\<exists>cur. save_quiz_inserts fault code t sqs (start_transaction d) = Inr cur \<and> d' = db cur"
    using i d' code by blast
qed

text \<open>When nothing fails and the store does not reject the code, the save commits.\<close>

lemma save_quiz_commits:
  assumes "clear fault 0 (Suc (quiz_inserts sqs))"
    and "Access_Code_unique d \<longrightarrow>
           generate_access_code rng 6 \<notin> set (map Access_Code (Quizzes d))"
  shows "\<exists>cur. save_quiz_inserts fault (generate_access_code rng 6) t sqs
                  (start_transaction d) = Inr cur
           \<and> save_quiz True fault rng t sqs d = (db cur, Saved (generate_access_code rng 6))"
proof -
  let ?code = "generate_access_code rng 6"
  have cl: "clear fault 0 (quiz_inserts sqs)" and nf: "\<not> fault (quiz_inserts sqs)"
    using assms(1) by (simp_all add: clear_Suc_right)
  obtain cur where i: "save_quiz_inserts fault ?code t sqs (start_transaction d) = Inr cur"
  proof (cases "save_quiz_inserts fault ?code t sqs (start_transaction d)")
    case (Inl e)
    from save_quiz_inserts_Inl[OF Inl] cl assms(2) have False by simp
    then show ?thesis ..
  next
    case (Inr cur)
    then show ?thesis by (rule that)
  qed
  from save_quiz_inserts_Inr[OF i] have "executed cur = quiz_inserts sqs" by simp
  with nf i have "save_quiz True fault rng t sqs d = (db cur, Saved ?code)"
    by (simp add: save_quiz_connected)
  with i show ?thesis by blast
qed

text \<open>When a statement fails, or the store rejects the code, the save is rolled back.\<close>

lemma save_quiz_rolls_back:
  assumes "\<not> clear fault 0 (Suc (quiz_inserts sqs))
         \<or> (Access_Code_unique d
              \<and> generate_access_code rng 6 \<in> set (map Access_Code (Quizzes d)))"
  shows "save_quiz True fault rng t sqs d = (d, SaveFailed)"
proof (cases "save_quiz_inserts fault (generate_access_code rng 6) t sqs (start_transaction d)")
  case (Inl e)
  then show ?thesis by (simp add: save_quiz_connected)
next
  case (Inr cur)
  note f = save_quiz_inserts_Inr[OF Inr]
  from f assms have "fault (executed cur)" by (auto simp: clear_Suc_right)
  with Inr show ?thesis by (simp add: save_quiz_connected)
qed

lemma not_clear_witness: "a \<le> k \<Longrightarrow> k < a + n \<Longrightarrow> fault k \<Longrightarrow> \<not> clear fault a n"
  by (auto simp: clear_iff)

lemma clear_no_fault [simp]: "clear no_fault a n"
  by (simp add: clear_iff no_fault_def)

lemma generate_zero_draws: "generate_access_code zero_draws 6 = ''AAAAAA''"
  by (simp add: generate_access_code_def zero_draws_def characters_def upt_conv_Cons)

lemma keys_issued_empty: "keys_issued (empty_database uniq)"
  by (simp add: keys_issued_def empty_database_def)

text \<open>The rows and counters of a committed save.\<close>

lemma save_quiz_Saved_rows:
  assumes "save_quiz connected fault rng t tree d = (d', Saved code)"
  shows "\<exists>sqrows qrows crows.
        Quizzes d' = Quizzes d @
           [\<lparr>QuizID = next_QuizID d, CreatorUserID = user_id, Title = t, Access_Code = code\<rparr>]
        \<and> SubQuizzes d' = SubQuizzes d @ sqrows
        \<and> Questions d' = Questions d @ qrows
        \<and> Choices d' = Choices d @ crows
        \<and> next_QuizID d' = Suc (next_QuizID d)
        \<and> (\<forall>r\<in>set sqrows. sq_QuizID r = next_QuizID d
              \<and> next_SubQuizID d \<le> SubQuizID r \<and> SubQuizID r < next_SubQuizID d')
        \<and> (\<forall>r\<in>set qrows. next_SubQuizID d \<le> q_SubQuizID r
              \<and> q_SubQuizID r < next_SubQuizID d'
              \<and> next_QuestionID d \<le> QuestionID r \<and> QuestionID r < next_QuestionID d')
        \<and> (\<forall>c\<in>set crows. next_QuestionID d \<le> c_QuestionID c
              \<and> c_QuestionID c < next_QuestionID d')
        \<and> next_SubQuizID d \<le> next_SubQuizID d'
        \<and> next_QuestionID d \<le> next_QuestionID d'
        \<and> map sq_Order_Index sqrows = [0..<length tree]
        \<and> map (subquiz_view qrows crows) sqrows = map (subquiz_content \<circ> persisted_subquiz) tree
        \<and> length qrows = sum_list (map (\<lambda>sq. length (questions sq)) tree)
        \<and> length crows = sum_list (map (\<lambda>sq. sum_list (map choice_inserts (questions sq))) tree)
        \<and> map (\<lambda>r. map q_Order_Index (filter (\<lambda>q. q_SubQuizID q = SubQuizID r) qrows)) sqrows
            = map (\<lambda>sq. [0..<length (questions sq)]) tree"
proof -
  from save_quiz_Saved(5)[OF assms] obtain cur where
    i: "save_quiz_inserts fault code t tree (start_transaction d) = Inr cur" and d': "d' = db cur"
    by blast
  from i obtain cur1 where
    q: "insert_Quizzes fault user_id t code (start_transaction d) = Inr cur1"
    and s: "save_subquizzes fault (lastrowid cur1) 0 tree cur1 = Inr cur"
    by (auto simp: save_quiz_inserts_def split: sum.splits)
  note f = insert_Quizzes_Inr[OF q]
  note g = save_subquizzes_Inr[OF s]
  note h = save_quiz_inserts_Inr[OF i]
  from save_subquizzes_rows[OF s] f(4,6,7,8,10,11) obtain sqrows qrows crows where
    rows: "SubQuizzes (db cur) = SubQuizzes d @ sqrows"
      "Questions (db cur) = Questions d @ qrows"
      "Choices (db cur) = Choices d @ crows"
      "\<forall>r\<in>set sqrows. sq_QuizID r = next_QuizID d
          \<and> next_SubQuizID d \<le> SubQuizID r \<and> SubQuizID r < next_SubQuizID (db cur)"
      "\<forall>r\<in>set qrows. next_SubQuizID d \<le> q_SubQuizID r
          \<and> q_SubQuizID r < next_SubQuizID (db cur)
          \<and> next_QuestionID d \<le> QuestionID r \<and> QuestionID r < next_QuestionID (db cur)"
      "\<forall>c\<in>set crows. next_QuestionID d \<le> c_QuestionID c
          \<and> c_QuestionID c < next_QuestionID (db cur)"
      "map sq_Order_Index sqrows = [0..<0 + length tree]"
      "map (subquiz_view qrows crows) sqrows = map (subquiz_content \<circ> persisted_subquiz) tree"
      "length qrows = sum_list (map (\<lambda>sq. length (questions sq)) tree)"
      "length crows = sum_list (map (\<lambda>sq. sum_list (map choice_inserts (questions sq))) tree)"
      "map (\<lambda>r. map q_Order_Index (filter (\<lambda>q. q_SubQuizID q = SubQuizID r) qrows)) sqrows
         = map (\<lambda>sq. [0..<length (questions sq)]) tree"
    by auto
  have m1: "next_SubQuizID d \<le> next_SubQuizID (db cur)" using g f(10) by simp
  have m2: "next_QuestionID d \<le> next_QuestionID (db cur)" using g f(11) by simp
  have z: "Quizzes (db cur) = Quizzes d @
      [\<lparr>QuizID = next_QuizID d, CreatorUserID = user_id, Title = t, Access_Code = code\<rparr>]"
    "next_QuizID (db cur) = Suc (next_QuizID d)"
    using h by simp_all
  from rows(7) have r7: "map sq_Order_Index sqrows = [0..<length tree]" by simp
  show ?thesis
    unfolding d'
    using z rows(1-6) m1 m2 r7 rows(8-11) by blast
qed


lemma save_quiz_not_Saved:
  assumes "\<forall>code. snd (save_quiz connected fault rng t tree d) \<noteq> Saved code"
  shows "fst (save_quiz connected fault rng t tree d) = d"
proof (cases connected)
  case False
  then show ?thesis by (simp add: save_quiz_not_connected)
next
  case True
  show ?thesis
  proof (cases "save_quiz_inserts fault (generate_access_code rng 6) t tree (start_transaction d)")
    case (Inl e)
    with True show ?thesis by (simp add: save_quiz_connected)
  next
    case (Inr cur)
    with True assms have "fault (executed cur)"
      by (auto simp: save_quiz_connected split: if_splits)
    with True Inr show ?thesis by (simp add: save_quiz_connected)
  qed
qed

text \<open>
  C4. \<^verbatim>\<open>save_quiz\<close> is atomic. Whatever the tree and whichever statement of the
  transaction is made to fail (the insert of the quiz row, of any sub-quiz, question or
  choice row, or the commit after them), the store after the call is the store before
  it: the outcome is the rolled-back one and no row of the attempted quiz exists. More
  generally, unless the call reports a saved quiz the store is unchanged, so a later
  \<^verbatim>\<open>get_quiz_by_code\<close> sees exactly what it saw before.
\<close>

theorem save_quiz_atomic:
  "(\<forall>k. k \<le> quiz_inserts tree \<and> fault k
        \<longrightarrow> save_quiz True fault rng t tree d = (d, SaveFailed))
   \<and> ((\<forall>code. snd (save_quiz connected fault rng t tree d) \<noteq> Saved code)
        \<longrightarrow> fst (save_quiz connected fault rng t tree d) = d
          \<and> (\<forall>c. get_quiz_by_code True False
                     (fst (save_quiz connected fault rng t tree d)) c
                 = get_quiz_by_code True False d c))"
proof (intro conjI allI impI)
  fix k assume k: "k \<le> quiz_inserts tree \<and> fault k"
  then have "\<not> clear fault 0 (Suc (quiz_inserts tree))"
    by (intro not_clear_witness[of 0 k]) simp_all
  then show "save_quiz True fault rng t tree d = (d, SaveFailed)"
    by (intro save_quiz_rolls_back) simp
next
  assume a: "\<forall>code. snd (save_quiz connected fault rng t tree d) \<noteq> Saved code"
  then show "fst (save_quiz connected fault rng t tree d) = d"
    by (rule save_quiz_not_Saved)
next
  fix c
  assume a: "\<forall>code. snd (save_quiz connected fault rng t tree d) \<noteq> Saved code"
  then have "fst (save_quiz connected fault rng t tree d) = d"
    by (rule save_quiz_not_Saved)
  then show "get_quiz_by_code True False (fst (save_quiz connected fault rng t tree d)) c
      = get_quiz_by_code True False d c"
    by simp
qed

lemma quiz_inserts_demo_tree: "quiz_inserts demo_tree = 12"
  by (simp add: quiz_inserts_def subquiz_inserts_def question_inserts_def choice_inserts_def
      demo_tree_def q_single_b_def q_open_leftover_def q_multi_xy_def)

theorem save_quiz_atomic_witness:
  "quiz_inserts demo_tree = 12 \<and> fault_at_3 3
   \<and> save_quiz True fault_at_3 zero_draws ''Demo'' demo_tree (empty_database True)
       = (empty_database True, SaveFailed)"
proof -
  have k: "3 \<le> quiz_inserts demo_tree \<and> fault_at_3 3"
    by (simp add: quiz_inserts_demo_tree fault_at_3_def)
  have "save_quiz True fault_at_3 zero_draws ''Demo'' demo_tree (empty_database True)
      = (empty_database True, SaveFailed)"
    using save_quiz_atomic[of demo_tree fault_at_3 zero_draws "''Demo''" "empty_database True" True] k
    by blast
  with k show ?thesis by (simp add: quiz_inserts_demo_tree)
qed


lemma save_quiz_keeps_keys_issued:
  assumes "keys_issued d"
  shows "keys_issued (fst (save_quiz connected fault rng t tree d))"
proof (cases "\<exists>code. snd (save_quiz connected fault rng t tree d) = Saved code")
  case False
  then have "fst (save_quiz connected fault rng t tree d) = d"
    by (intro save_quiz_not_Saved) simp
  with assms show ?thesis by simp
next
  case True
  then obtain code d' where s: "save_quiz connected fault rng t tree d = (d', Saved code)"
    by (metis prod.collapse)
  from save_quiz_Saved_rows[OF s] obtain sqrows qrows crows where
    r: "SubQuizzes d' = SubQuizzes d @ sqrows" "Questions d' = Questions d @ qrows"
      "Choices d' = Choices d @ crows" "next_QuizID d' = Suc (next_QuizID d)"
      "\<forall>r\<in>set sqrows. sq_QuizID r = next_QuizID d
          \<and> next_SubQuizID d \<le> SubQuizID r \<and> SubQuizID r < next_SubQuizID d'"
      "\<forall>r\<in>set qrows. next_SubQuizID d \<le> q_SubQuizID r
          \<and> q_SubQuizID r < next_SubQuizID d'
          \<and> next_QuestionID d \<le> QuestionID r \<and> QuestionID r < next_QuestionID d'"
      "\<forall>c\<in>set crows. next_QuestionID d \<le> c_QuestionID c
          \<and> c_QuestionID c < next_QuestionID d'"
      "next_SubQuizID d \<le> next_SubQuizID d'" "next_QuestionID d \<le> next_QuestionID d'"
    by blast
  from assms have old:
    "\<forall>r\<in>set (SubQuizzes d). sq_QuizID r < next_QuizID d"
    "\<forall>r\<in>set (Questions d). q_SubQuizID r < next_SubQuizID d"
    "\<forall>r\<in>set (Choices d). c_QuestionID r < next_QuestionID d"
    by (simp_all add: keys_issued_def list_all_iff)
  have "\<forall>r\<in>set (SubQuizzes d'). sq_QuizID r < next_QuizID d'"
    using old(1) r(1,4,5) by fastforce
  moreover have "\<forall>r\<in>set (Questions d'). q_SubQuizID r < next_SubQuizID d'"
    using old(2) r(2,6,8) by fastforce
  moreover have "\<forall>r\<in>set (Choices d'). c_QuestionID r < next_QuestionID d'"
    using old(3) r(3,7,9) by fastforce
  ultimately have "keys_issued d'" by (simp add: keys_issued_def list_all_iff)
  with s show ?thesis by simp
qed

text \<open>
  C3. Saving a tree and loading it back by the code that the save reports rebuilds the
  tree: the quiz title, and then, in order, every sub-quiz title, every question's text,
  type and points, and every choice's text and correctness flag, with the choices of
  \<^verbatim>\<open>OPEN_TEXT\<close> questions left out. Ids are the store's and are not compared. This
  holds in every store whose foreign keys were issued by it (the empty store, and every
  store that \<^verbatim>\<open>save_quiz\<close> produces from one), provided the store enforces the
  uniqueness of access codes or the generated code happens to be new.
\<close>

theorem save_then_load_round_trip:
  assumes "keys_issued d"
    and "save_quiz connected fault rng quiz_title tree d = (d', Saved code)"
    and "Access_Code_unique d \<or> code \<notin> set (map Access_Code (Quizzes d))"
  shows "\<exists>loaded quiz_doc_id.
           get_quiz_by_code True False d' code = Some (loaded, quiz_doc_id)
         \<and> title loaded = quiz_title
         \<and> creator_id loaded = user_id
         \<and> access_code loaded = code
         \<and> map subquiz_content (sub_quizzes_json loaded)
             = map (subquiz_content \<circ> persisted_subquiz) tree
         \<and> keys_issued d'"
proof -
  let ?hdr = "\<lparr>QuizID = next_QuizID d, CreatorUserID = user_id, Title = quiz_title,
               Access_Code = code\<rparr>"
  from save_quiz_Saved_rows[OF assms(2)] obtain sqrows qrows crows where
    r: "Quizzes d' = Quizzes d @ [?hdr]"
      "SubQuizzes d' = SubQuizzes d @ sqrows" "Questions d' = Questions d @ qrows"
      "Choices d' = Choices d @ crows"
      "\<forall>r\<in>set sqrows. sq_QuizID r = next_QuizID d
          \<and> next_SubQuizID d \<le> SubQuizID r \<and> SubQuizID r < next_SubQuizID d'"
      "\<forall>r\<in>set qrows. next_SubQuizID d \<le> q_SubQuizID r
          \<and> q_SubQuizID r < next_SubQuizID d'
          \<and> next_QuestionID d \<le> QuestionID r \<and> QuestionID r < next_QuestionID d'"
      "map sq_Order_Index sqrows = [0..<length tree]"
      "map (subquiz_view qrows crows) sqrows = map (subquiz_content \<circ> persisted_subquiz) tree"
    by blast
  from assms(1) have old:
    "\<forall>r\<in>set (SubQuizzes d). sq_QuizID r < next_QuizID d"
    "\<forall>r\<in>set (Questions d). q_SubQuizID r < next_SubQuizID d"
    "\<forall>r\<in>set (Choices d). c_QuestionID r < next_QuestionID d"
    by (simp_all add: keys_issued_def list_all_iff)
  have fresh: "code \<notin> set (map Access_Code (Quizzes d))"
    using assms(3) save_quiz_Saved(4)[OF assms(2)] by blast
  have "filter (\<lambda>r. Access_Code r = code) (Quizzes d) = []"
    using fresh by (auto simp: filter_empty_conv)
  then have hdr: "filter (\<lambda>r. Access_Code r = code) (Quizzes d') = [?hdr]"
    using r(1) by simp
  have "filter (\<lambda>r. sq_QuizID r = next_QuizID d) (SubQuizzes d) = []"
    using old(1) by (auto simp: filter_empty_conv)
  moreover have "filter (\<lambda>r. sq_QuizID r = next_QuizID d) sqrows = sqrows"
    using r(5) by (simp add: filter_id_conv)
  ultimately have sel: "filter (\<lambda>r. sq_QuizID r = next_QuizID d) (SubQuizzes d') = sqrows"
    using r(2) by simp
  have "sorted (map sq_Order_Index sqrows)" using r(7) by simp
  then have so: "sort_key sq_Order_Index sqrows = sqrows" by (rule sort_key_id_if_sorted)
  let ?loaded = "\<lparr>title = quiz_title, creator_id = user_id, access_code = code,
                  sub_quizzes_json = map (load_subquiz d') sqrows\<rparr>"
  have load: "get_quiz_by_code True False d' code = Some (?loaded, py_str (next_QuizID d))"
    using hdr sel so by (simp add: get_quiz_by_code_def)
  have "map subquiz_content (map (load_subquiz d') sqrows)
      = map (subquiz_view (Questions d @ qrows) (Choices d @ crows)) sqrows"
    using r(3,4) by (simp add: subquiz_content_load comp_def)
  also have "\<dots> = map (subquiz_view qrows crows) sqrows"
  proof (rule map_cong[OF refl])
    fix x assume xin: "x \<in> set sqrows"
    show "subquiz_view (Questions d @ qrows) (Choices d @ crows) x = subquiz_view qrows crows x"
    proof (rule subquiz_view_later)
      show "\<forall>q\<in>set (Questions d). q_SubQuizID q \<noteq> SubQuizID x"
        using old(2) r(5) xin by fastforce
      show "\<forall>q\<in>set qrows. \<forall>c\<in>set (Choices d). c_QuestionID c \<noteq> QuestionID q"
        using old(3) r(6) by fastforce
    qed
  qed
  also have "\<dots> = map (subquiz_content \<circ> persisted_subquiz) tree" by (rule r(8))
  finally have content: "map subquiz_content (sub_quizzes_json ?loaded)
      = map (subquiz_content \<circ> persisted_subquiz) tree"
    by simp
  have "keys_issued d'"
    using save_quiz_keeps_keys_issued[OF assms(1), of connected fault rng quiz_title tree] assms(2)
    by simp
  with load content show ?thesis by simp
qed


lemma save_into_empty:
  "save_quiz True no_fault zero_draws t tree (empty_database uniq)
     = (fst (save_quiz True no_fault zero_draws t tree (empty_database uniq)), Saved ''AAAAAA'')"
proof -
  have "Access_Code_unique (empty_database uniq) \<longrightarrow>
      generate_access_code zero_draws 6 \<notin> set (map Access_Code (Quizzes (empty_database uniq)))"
    by (simp add: empty_database_def)
  from save_quiz_commits[OF clear_no_fault this, where t = t and sqs = tree]
  show ?thesis by (auto simp: generate_zero_draws)
qed

lemma demo_tree_content:
  "map (subquiz_content \<circ> persisted_subquiz) demo_tree =
     [(''Basics'',
        [(''Pick one'', ''SINGLE_CHOICE'', 1, [(''A'', False), (''B'', True), (''C'', True)]),
         (''Explain'', ''OPEN_TEXT'', 1, [])]),
      (''More'',
        [(''Pick two'', ''MULTI_SELECT'', 2, [(''X'', True), (''Y'', True), (''Z'', False)])])]"
  by (simp add: demo_tree_def q_single_b_def q_open_leftover_def q_multi_xy_def
      subquiz_content_def persisted_subquiz_def question_content_def persisted_question_def
      choice_content_def)

theorem save_then_load_round_trip_witness:
  "keys_issued (empty_database True)
   \<and> save_quiz True no_fault zero_draws ''Demo'' demo_tree (empty_database True)
       = (demo_store, Saved ''AAAAAA'')
   \<and> (\<exists>loaded quiz_doc_id.
         get_quiz_by_code True False demo_store ''AAAAAA'' = Some (loaded, quiz_doc_id)
       \<and> title loaded = ''Demo''
       \<and> map subquiz_content (sub_quizzes_json loaded) =
           [(''Basics'',
              [(''Pick one'', ''SINGLE_CHOICE'', 1, [(''A'', False), (''B'', True), (''C'', True)]),
               (''Explain'', ''OPEN_TEXT'', 1, [])]),
            (''More'',
              [(''Pick two'', ''MULTI_SELECT'', 2,
                [(''X'', True), (''Y'', True), (''Z'', False)])])])"
proof -
  have k: "keys_issued (empty_database True)" by (rule keys_issued_empty)
  have s: "save_quiz True no_fault zero_draws ''Demo'' demo_tree (empty_database True)
      = (demo_store, Saved ''AAAAAA'')"
    unfolding demo_store_def by (rule save_into_empty)
  have u: "Access_Code_unique (empty_database True)
      \<or> ''AAAAAA'' \<notin> set (map Access_Code (Quizzes (empty_database True)))"
    by (simp add: empty_database_def)
  from save_then_load_round_trip[OF k s u] obtain loaded quiz_doc_id where
    l: "get_quiz_by_code True False demo_store ''AAAAAA'' = Some (loaded, quiz_doc_id)"
      "title loaded = ''Demo''"
      "map subquiz_content (sub_quizzes_json loaded)
         = map (subquiz_content \<circ> persisted_subquiz) demo_tree"
    by blast
  from l(3) have c: "map subquiz_content (sub_quizzes_json loaded) =
           [(''Basics'',
              [(''Pick one'', ''SINGLE_CHOICE'', 1, [(''A'', False), (''B'', True), (''C'', True)]),
               (''Explain'', ''OPEN_TEXT'', 1, [])]),
            (''More'',
              [(''Pick two'', ''MULTI_SELECT'', 2,
                [(''X'', True), (''Y'', True), (''Z'', False)])])]"
    by (simp only: demo_tree_content)
  show ?thesis
    by (intro conjI exI) (rule k, rule s, rule l(1), rule l(2), rule c)
qed

text \<open>
  C7 as stated fails: a tree whose single-choice question has no choice marked correct
  does not validate, and \<^verbatim>\<open>save_quiz\<close> persists it all the same.
\<close>

theorem save_quiz_validation_counterexample:
  "validate unmarked_tree = [NoCorrectChoice]
   \<and> save_quiz True no_fault zero_draws ''Quiz'' unmarked_tree (empty_database True)
       = (unmarked_store, Saved ''AAAAAA'')
   \<and> length (Quizzes unmarked_store) = 1
   \<and> length (SubQuizzes unmarked_store) = 1
   \<and> length (Questions unmarked_store) = 1
   \<and> length (Choices unmarked_store) = 2"
proof -
  have v: "validate unmarked_tree = [NoCorrectChoice]"
    by (simp add: validate_def question_reasons_def unmarked_tree_def q_single_unmarked_def)
  have s: "save_quiz True no_fault zero_draws ''Quiz'' unmarked_tree (empty_database True)
      = (unmarked_store, Saved ''AAAAAA'')"
    unfolding unmarked_store_def by (rule save_into_empty)
  from save_quiz_Saved_rows[OF s] obtain sqrows qrows crows where
    r: "Quizzes unmarked_store = Quizzes (empty_database True) @
           [\<lparr>QuizID = next_QuizID (empty_database True), CreatorUserID = user_id,
             Title = ''Quiz'', Access_Code = ''AAAAAA''\<rparr>]"
      "SubQuizzes unmarked_store = SubQuizzes (empty_database True) @ sqrows"
      "Questions unmarked_store = Questions (empty_database True) @ qrows"
      "Choices unmarked_store = Choices (empty_database True) @ crows"
      "map sq_Order_Index sqrows = [0..<length unmarked_tree]"
      "length qrows = sum_list (map (\<lambda>sq. length (questions sq)) unmarked_tree)"
      "length crows
         = sum_list (map (\<lambda>sq. sum_list (map choice_inserts (questions sq))) unmarked_tree)"
    by blast
  from r(5) have "length sqrows = length unmarked_tree"
    using map_eq_imp_length_eq[of sq_Order_Index sqrows id "[0..<length unmarked_tree]"] by simp
  with r(1-4,6,7) have
    "length (Quizzes unmarked_store) = 1" "length (SubQuizzes unmarked_store) = 1"
    "length (Questions unmarked_store) = 1" "length (Choices unmarked_store) = 2"
    by (simp_all add: empty_database_def unmarked_tree_def q_single_unmarked_def
        choice_inserts_def)
  with v s show ?thesis by simp
qed

text \<open>
  C7, as the code has it. \<^verbatim>\<open>save_quiz\<close> checks nothing about the tree: for every
  tree, valid or not, the save commits as soon as no statement fails and the store does
  not reject the access code, and then the store holds one more quiz row, one more
  sub-quiz row per sub-quiz, one more question row per question and one more choice row
  per choice of a question that is not \<^verbatim>\<open>OPEN_TEXT\<close>. Of the invariants, only dense
  ordering holds by construction, at both levels: the new sub-quiz rows carry the order
  indices \<open>0, 1, \<dots>\<close> in sequence, and so do, for each new sub-quiz row, the new
  question rows that refer to it.
\<close>

theorem save_quiz_persists_any_tree:
  assumes "clear fault 0 (Suc (quiz_inserts tree))"
    and "Access_Code_unique d \<longrightarrow>
           generate_access_code rng 6 \<notin> set (map Access_Code (Quizzes d))"
  shows "\<exists>d'. save_quiz True fault rng t tree d = (d', Saved (generate_access_code rng 6))
     \<and> length (Quizzes d') = Suc (length (Quizzes d))
     \<and> length (SubQuizzes d') = length (SubQuizzes d) + length tree
     \<and> length (Questions d')
         = length (Questions d) + sum_list (map (\<lambda>sq. length (questions sq)) tree)
     \<and> length (Choices d')
         = length (Choices d)
           + sum_list (map (\<lambda>sq. sum_list (map choice_inserts (questions sq))) tree)
     \<and> map sq_Order_Index (drop (length (SubQuizzes d)) (SubQuizzes d')) = [0..<length tree]
     \<and> map (\<lambda>r. map q_Order_Index
                (filter (\<lambda>q. q_SubQuizID q = SubQuizID r)
                   (drop (length (Questions d)) (Questions d'))))
           (drop (length (SubQuizzes d)) (SubQuizzes d'))
         = map (\<lambda>sq. [0..<length (questions sq)]) tree"
proof -
  let ?code = "generate_access_code rng 6"
  from save_quiz_commits[OF assms, where t = t] obtain d' where
    s: "save_quiz True fault rng t tree d = (d', Saved ?code)"
    by blast
  from save_quiz_Saved_rows[OF s] obtain sqrows qrows crows where
    r: "Quizzes d' = Quizzes d @
           [\<lparr>QuizID = next_QuizID d, CreatorUserID = user_id, Title = t,
             Access_Code = ?code\<rparr>]"
      "SubQuizzes d' = SubQuizzes d @ sqrows"
      "Questions d' = Questions d @ qrows"
      "Choices d' = Choices d @ crows"
      "map sq_Order_Index sqrows = [0..<length tree]"
      "length qrows = sum_list (map (\<lambda>sq. length (questions sq)) tree)"
      "length crows = sum_list (map (\<lambda>sq. sum_list (map choice_inserts (questions sq))) tree)"
      "map (\<lambda>r. map q_Order_Index (filter (\<lambda>q. q_SubQuizID q = SubQuizID r) qrows)) sqrows
         = map (\<lambda>sq. [0..<length (questions sq)]) tree"
    by blast
  from r(5) have l: "length sqrows = length tree"
    using map_eq_imp_length_eq[of sq_Order_Index sqrows id "[0..<length tree]"] by simp
  have so: "map sq_Order_Index (drop (length (SubQuizzes d)) (SubQuizzes d')) = [0..<length tree]"
    using r(2,5) by simp
  have qo: "map (\<lambda>r. map q_Order_Index
                (filter (\<lambda>q. q_SubQuizID q = SubQuizID r)
                   (drop (length (Questions d)) (Questions d'))))
           (drop (length (SubQuizzes d)) (SubQuizzes d'))
         = map (\<lambda>sq. [0..<length (questions sq)]) tree"
    using r(2,3,8) by simp
  from s r(1-4,6,7) l so qo show ?thesis by simp
qed

theorem save_quiz_persists_any_tree_witness:
  "validate unmarked_tree \<noteq> []
   \<and> clear no_fault 0 (Suc (quiz_inserts unmarked_tree))
   \<and> (\<exists>d'. save_quiz True no_fault zero_draws ''Quiz'' unmarked_tree (empty_database True)
              = (d', Saved ''AAAAAA'')
          \<and> length (Questions d') = 1 \<and> length (Choices d') = 2
          \<and> map (\<lambda>r. map q_Order_Index
                     (filter (\<lambda>q. q_SubQuizID q = SubQuizID r) (Questions d')))
                (SubQuizzes d') = [[0]])"
proof -
  have v: "validate unmarked_tree \<noteq> []"
    by (simp add: validate_def question_reasons_def unmarked_tree_def q_single_unmarked_def)
  have c: "clear no_fault 0 (Suc (quiz_inserts unmarked_tree))" by simp
  have u: "Access_Code_unique (empty_database True) \<longrightarrow>
      generate_access_code zero_draws 6 \<notin> set (map Access_Code (Quizzes (empty_database True)))"
    by (simp add: empty_database_def)
  from save_quiz_persists_any_tree[OF c u, where t = "''Quiz''"] obtain d' where
    d: "save_quiz True no_fault zero_draws ''Quiz'' unmarked_tree (empty_database True)
          = (d', Saved (generate_access_code zero_draws 6))"
      "length (Questions d') = length (Questions (empty_database True))
          + sum_list (map (\<lambda>sq. length (questions sq)) unmarked_tree)"
      "length (Choices d') = length (Choices (empty_database True))
          + sum_list (map (\<lambda>sq. sum_list (map choice_inserts (questions sq))) unmarked_tree)"
      "map (\<lambda>r. map q_Order_Index
                (filter (\<lambda>q. q_SubQuizID q = SubQuizID r)
                   (drop (length (Questions (empty_database True))) (Questions d'))))
           (drop (length (SubQuizzes (empty_database True))) (SubQuizzes d'))
         = map (\<lambda>sq. [0..<length (questions sq)]) unmarked_tree"
    by blast
  from d have e: "save_quiz True no_fault zero_draws ''Quiz'' unmarked_tree (empty_database True)
          = (d', Saved ''AAAAAA'')"
      "length (Questions d') = 1" "length (Choices d') = 2"
      "map (\<lambda>r. map q_Order_Index
                (filter (\<lambda>q. q_SubQuizID q = SubQuizID r) (Questions d')))
           (SubQuizzes d') = [[0]]"
    by (simp_all add: generate_zero_draws empty_database_def unmarked_tree_def
        q_single_unmarked_def choice_inserts_def)
  show ?thesis
    by (intro conjI exI) (rule v, rule c, rule e(1), rule e(2), rule e(3), rule e(4))
qed


lemma save_quiz_Saved_Quizzes:
  assumes "save_quiz connected fault rng t tree d = (d', Saved code)"
  shows "Quizzes d' = Quizzes d @
           [\<lparr>QuizID = next_QuizID d, CreatorUserID = user_id, Title = t, Access_Code = code\<rparr>]"
  using save_quiz_Saved_rows[OF assms] by blast

text \<open>
  C6, as the code has it. A generated access code has exactly six characters, each one
  of the 36 upper-case letters and digits. The generator reads only the random draws,
  and \<^verbatim>\<open>save_quiz\<close> generates one code per call and never a second: a committed
  save reports exactly that code. Uniqueness is the store's doing, not the generator's:
  a store that enforces the constraint rejects a code it already holds, the save is
  rolled back, and the stored codes stay distinct; nothing is retried.
\<close>

theorem access_code_generation:
  "length (generate_access_code rng 6) = 6
   \<and> set (generate_access_code rng 6) \<subseteq> set characters
   \<and> characters = ''ABCDEFGHIJKLMNOPQRSTUVWXYZ0123456789''
   \<and> (\<forall>d' code. save_quiz connected fault rng t tree d = (d', Saved code)
         \<longrightarrow> code = generate_access_code rng 6)
   \<and> (Access_Code_unique d \<and> generate_access_code rng 6 \<in> set (map Access_Code (Quizzes d))
         \<longrightarrow> save_quiz True fault rng t tree d = (d, SaveFailed))
   \<and> (Access_Code_unique d \<and> distinct (map Access_Code (Quizzes d))
         \<longrightarrow> distinct (map Access_Code (Quizzes (fst (save_quiz connected fault rng t tree d)))))"
proof (intro conjI allI impI)
  show "length (generate_access_code rng 6) = 6" by simp
next
  show "set (generate_access_code rng 6) \<subseteq> set characters"
    by (rule set_generate_access_code)
next
  show "characters = ''ABCDEFGHIJKLMNOPQRSTUVWXYZ0123456789''"
    by (simp add: characters_def)
next
  fix d' code
  assume "save_quiz connected fault rng t tree d = (d', Saved code)"
  then show "code = generate_access_code rng 6" by (rule save_quiz_Saved(2))
next
  assume "Access_Code_unique d
      \<and> generate_access_code rng 6 \<in> set (map Access_Code (Quizzes d))"
  then show "save_quiz True fault rng t tree d = (d, SaveFailed)"
    by (intro save_quiz_rolls_back) simp
next
  assume a: "Access_Code_unique d \<and> distinct (map Access_Code (Quizzes d))"
  show "distinct (map Access_Code (Quizzes (fst (save_quiz connected fault rng t tree d))))"
  proof (cases "\<exists>code. snd (save_quiz connected fault rng t tree d) = Saved code")
    case False
    then have "fst (save_quiz connected fault rng t tree d) = d"
      by (intro save_quiz_not_Saved) simp
    with a show ?thesis by simp
  next
    case True
    then obtain code d' where s: "save_quiz connected fault rng t tree d = (d', Saved code)"
      by (metis prod.collapse)
    from save_quiz_Saved(4)[OF s] a have "code \<notin> set (map Access_Code (Quizzes d))" by simp
    with a save_quiz_Saved_Quizzes[OF s] have "distinct (map Access_Code (Quizzes d'))"
      by simp
    with s show ?thesis by simp
  qed
qed

lemma one_quiz_store_Quizzes:
  "Quizzes (one_quiz_store uniq) =
     [\<lparr>QuizID = 1, CreatorUserID = user_id, Title = ''First'', Access_Code = ''AAAAAA''\<rparr>]"
  using save_quiz_Saved_Quizzes[OF save_into_empty[of "''First''" "[]" uniq]]
  by (simp add: one_quiz_store_def empty_database_def)

lemma one_quiz_store_unique: "Access_Code_unique (one_quiz_store uniq) = uniq"
proof -
  from save_quiz_Saved(5)[OF save_into_empty[of "''First''" "[]" uniq]] obtain cur where
    i: "save_quiz_inserts no_fault ''AAAAAA'' ''First'' [] (start_transaction (empty_database uniq))
          = Inr cur"
    and d: "fst (save_quiz True no_fault zero_draws ''First'' [] (empty_database uniq)) = db cur"
    by blast
  from save_quiz_inserts_Inr[OF i] d show ?thesis
    by (simp add: one_quiz_store_def empty_database_def)
qed

theorem access_code_generation_witness:
  "Access_Code_unique (one_quiz_store True)
   \<and> map Access_Code (Quizzes (one_quiz_store True)) = [''AAAAAA'']
   \<and> generate_access_code zero_draws 6 = ''AAAAAA''
   \<and> save_quiz True no_fault zero_draws ''Second'' [] (one_quiz_store True)
       = (one_quiz_store True, SaveFailed)"
proof -
  have u: "Access_Code_unique (one_quiz_store True)" by (simp add: one_quiz_store_unique)
  have q: "map Access_Code (Quizzes (one_quiz_store True)) = [''AAAAAA'']"
    by (simp add: one_quiz_store_Quizzes)
  have g: "generate_access_code zero_draws 6 = ''AAAAAA''" by (rule generate_zero_draws)
  have "save_quiz True no_fault zero_draws ''Second'' [] (one_quiz_store True)
      = (one_quiz_store True, SaveFailed)"
    using access_code_generation[of zero_draws True no_fault "''Second''" "[]" "one_quiz_store True"]
      u q g
    by simp
  with u q g show ?thesis by simp
qed

text \<open>
  C6 as stated fails. Two calls whose draws agree generate the same code. In a store
  that does not enforce uniqueness, the second save commits and the store then holds
  the code twice; in a store that does, the second save fails where the
  specification has the generator retry with a new code.
\<close>

theorem access_code_uniqueness_counterexample:
  "map Access_Code (Quizzes (one_quiz_store False)) = [''AAAAAA'']
   \<and> snd (save_quiz True no_fault zero_draws ''Second'' [] (one_quiz_store False))
       = Saved ''AAAAAA''
   \<and> map Access_Code
        (Quizzes (fst (save_quiz True no_fault zero_draws ''Second'' [] (one_quiz_store False))))
       = [''AAAAAA'', ''AAAAAA'']
   \<and> snd (save_quiz True no_fault zero_draws ''Second'' [] (one_quiz_store True)) = SaveFailed"
proof -
  have q: "map Access_Code (Quizzes (one_quiz_store False)) = [''AAAAAA'']"
    by (simp add: one_quiz_store_Quizzes)
  have nu: "Access_Code_unique (one_quiz_store False) \<longrightarrow>
      generate_access_code zero_draws 6 \<notin> set (map Access_Code (Quizzes (one_quiz_store False)))"
    by (simp add: one_quiz_store_unique)
  from save_quiz_commits[OF clear_no_fault nu, where t = "''Second''" and sqs = "[]"]
  obtain d' where
    s: "save_quiz True no_fault zero_draws ''Second'' [] (one_quiz_store False)
          = (d', Saved ''AAAAAA'')"
    by (auto simp: generate_zero_draws)
  have two: "map Access_Code (Quizzes d') = [''AAAAAA'', ''AAAAAA'']"
    using save_quiz_Saved_Quizzes[OF s] q by simp
  have "Access_Code_unique (one_quiz_store True)
      \<and> generate_access_code zero_draws 6 \<in> set (map Access_Code (Quizzes (one_quiz_store True)))"
    by (simp add: one_quiz_store_unique one_quiz_store_Quizzes generate_zero_draws)
  then have "\<not> clear no_fault 0 (Suc (quiz_inserts []))
         \<or> (Access_Code_unique (one_quiz_store True)
              \<and> generate_access_code zero_draws 6
                  \<in> set (map Access_Code (Quizzes (one_quiz_store True))))"
    by blast
  from save_quiz_rolls_back[OF this, where t = "''Second''"]
  have f: "snd (save_quiz True no_fault zero_draws ''Second'' [] (one_quiz_store True))
      = SaveFailed"
    by simp
  from q s two f show ?thesis by simp
qed

section \<open>Results on \<^verbatim>\<open>submit_results\<close>\<close>

lemma quiz_tables_same_refl [simp]: "quiz_tables_same d d"
  by (simp add: quiz_tables_same_def)

lemma quiz_tables_same_trans:
  "quiz_tables_same d d' \<Longrightarrow> quiz_tables_same d' d'' \<Longrightarrow> quiz_tables_same d d''"
  by (simp add: quiz_tables_same_def)

lemma insert_QuizTakers_Inl:
  "insert_QuizTakers fault qz n now tot cur = Inl e \<Longrightarrow> e = Error \<and> fault (executed cur)"
  by (simp add: insert_QuizTakers_def Let_def split: if_splits)

lemma insert_QuizTakers_Inr:
  assumes "insert_QuizTakers fault qz n now tot cur = Inr cur'"
  shows "\<not> fault (executed cur)"
    and "executed cur' = Suc (executed cur)"
    and "lastrowid cur' = next_TakerID (db cur)"
    and "QuizTakers (db cur') = QuizTakers (db cur) @
           [\<lparr>TakerID = next_TakerID (db cur), t_QuizID = qz, Taker_Name = n,
             Completed_At = now, Total_Score = tot\<rparr>]"
    and "Answers (db cur') = Answers (db cur)"
    and "next_TakerID (db cur') = Suc (next_TakerID (db cur))"
    and "quiz_tables_same (db cur) (db cur')"
  using assms
  by (auto simp: insert_QuizTakers_def Let_def quiz_tables_same_def split: if_splits)

lemma insert_Answers_Inl:
  "insert_Answers fault tk q sub i sc cur = Inl e \<Longrightarrow> e = Error \<and> fault (executed cur)"
  by (simp add: insert_Answers_def Let_def split: if_splits)

lemma insert_Answers_Inr:
  assumes "insert_Answers fault tk q sub i sc cur = Inr cur'"
  shows "\<not> fault (executed cur)"
    and "executed cur' = Suc (executed cur)"
    and "Answers (db cur') = Answers (db cur) @
           [\<lparr>a_TakerID = tk, a_QuestionID = q, Submitted_Answer = sub,
             a_Is_Correct = i, Score_Achieved = sc\<rparr>]"
    and "QuizTakers (db cur') = QuizTakers (db cur)"
    and "next_TakerID (db cur') = next_TakerID (db cur)"
    and "quiz_tables_same (db cur) (db cur')"
  using assms
  by (auto simp: insert_Answers_def Let_def quiz_tables_same_def split: if_splits)

lemma save_answers_Inl:
  "save_answers fault tk as cur = Inl e \<Longrightarrow>
     e = Error \<and> \<not> clear fault (executed cur) (length as)"
proof (induction as arbitrary: cur)
  case Nil
  then show ?case by simp
next
  case (Cons a as)
  show ?case
  proof (cases "insert_Answers fault tk (ans_question_id a) (ans_submitted a)
                  (ans_is_correct a) (ans_score a) cur")
    case (Inl e')
    with Cons.prems have "e' = e" by simp
    with insert_Answers_Inl[OF Inl] show ?thesis by (simp add: clear_Suc)
  next
    case (Inr cur1)
    with Cons.prems have r: "save_answers fault tk as cur1 = Inl e" by simp
    from Cons.IH[OF r] insert_Answers_Inr(1,2)[OF Inr] show ?thesis
      by (simp add: clear_Suc)
  qed
qed

lemma save_answers_Inr:
  "save_answers fault tk as cur = Inr cur' \<Longrightarrow>
     clear fault (executed cur) (length as)
     \<and> executed cur' = executed cur + length as
     \<and> Answers (db cur') = Answers (db cur) @
          map (\<lambda>a. \<lparr>a_TakerID = tk, a_QuestionID = ans_question_id a,
                     Submitted_Answer = ans_submitted a, a_Is_Correct = ans_is_correct a,
                     Score_Achieved = ans_score a\<rparr>) as
     \<and> QuizTakers (db cur') = QuizTakers (db cur)
     \<and> next_TakerID (db cur') = next_TakerID (db cur)
     \<and> quiz_tables_same (db cur) (db cur')"
proof (induction as arbitrary: cur)
  case Nil
  then show ?case by simp
next
  case (Cons a as)
  from Cons.prems obtain cur1 where
    i: "insert_Answers fault tk (ans_question_id a) (ans_submitted a)
          (ans_is_correct a) (ans_score a) cur = Inr cur1"
    and r: "save_answers fault tk as cur1 = Inr cur'"
    by (auto split: sum.splits)
  note f = insert_Answers_Inr[OF i]
  note ih = Cons.IH[OF r]
  have "quiz_tables_same (db cur) (db cur')"
    using f(6) ih by (blast intro: quiz_tables_same_trans)
  with f ih show ?case by (simp add: clear_Suc)
qed

text \<open>Scoring a recorded value never raises.\<close>

lemma score_submitted_Inr: "\<exists>sc correct rendered. score_submitted q submitted = Inr (sc, correct, rendered)"
proof (cases "submitted = ANone \<or> submitted = AList []")
  case True
  then show ?thesis by (auto simp: score_submitted_def)
next
  case False
  then have "\<exists>xs. py_sorted submitted = Inr xs" by (cases submitted) simp_all
  then have "\<exists>r. score_answer q submitted = Inr r"
    by (auto simp: score_answer_def)
  with False show ?thesis by (auto simp: score_submitted_def)
qed

lemma score_submitted_empty:
  "submitted = ANone \<or> submitted = AList [] \<Longrightarrow> score_submitted q submitted = Inr (0, False, NA)"
  by (auto simp: score_submitted_def)

lemma process_answers_Inr:
  "process_answers lookup as total0 acc = Inr (total', acc') \<Longrightarrow>
     \<exists>new. acc' = acc @ new
        \<and> length new = length (filter (\<lambda>(key, submitted). lookup key \<noteq> None) as)
        \<and> total' = total0 + sum_list (map ans_score new)"
proof (induction as arbitrary: total0 acc)
  case Nil
  then show ?case by simp
next
  case (Cons a as)
  obtain key submitted where a: "a = (key, submitted)" by (cases a)
  show ?case
  proof (cases "lookup key")
    case None
    with Cons.prems a have "process_answers lookup as total0 acc = Inr (total', acc')" by simp
    from Cons.IH[OF this] None a show ?thesis by simp
  next
    case (Some q)
    from score_submitted_Inr obtain sc correct rendered where
      s: "score_submitted q submitted = Inr (sc, correct, rendered)" by blast
    from Cons.prems a Some s obtain n where n: "py_int (q_id q) = Some n"
      by (cases "py_int (q_id q)") simp_all
    let ?row = "\<lparr>ans_question_id = n, ans_submitted = rendered,
                 ans_is_correct = is_correct_int correct, ans_score = sc\<rparr>"
    from Cons.prems a Some s n
    have "process_answers lookup as (total0 + sc) (acc @ [?row]) = Inr (total', acc')" by simp
    from Cons.IH[OF this] obtain new where
      new: "acc' = (acc @ [?row]) @ new"
        "length new = length (filter (\<lambda>(key, submitted). lookup key \<noteq> None) as)"
        "total' = total0 + sc + sum_list (map ans_score new)"
      by blast
    have "acc' = acc @ (?row # new)" using new(1) by simp
    moreover have "length (?row # new)
        = length (filter (\<lambda>(key, submitted). lookup key \<noteq> None) (a # as))"
      using new(2) a Some by simp
    moreover have "total' = total0 + sum_list (map ans_score (?row # new))"
      using new(3) by simp
    ultimately show ?thesis by blast
  qed
qed

lemma process_answers_Inl:
  "process_answers lookup as total0 acc = Inl e \<Longrightarrow>
     e = ValueError \<and> (\<exists>q\<in>ran lookup. py_int (q_id q) = None)"
proof (induction as arbitrary: total0 acc)
  case Nil
  then show ?case by simp
next
  case (Cons a as)
  obtain key submitted where a: "a = (key, submitted)" by (cases a)
  show ?case
  proof (cases "lookup key")
    case None
    with Cons.prems a have "process_answers lookup as total0 acc = Inl e" by simp
    from Cons.IH[OF this] show ?thesis .
  next
    case (Some q)
    from score_submitted_Inr obtain sc correct rendered where
      s: "score_submitted q submitted = Inr (sc, correct, rendered)" by blast
    show ?thesis
    proof (cases "py_int (q_id q)")
      case None
      with Cons.prems a Some s have "e = ValueError" by simp
      moreover have "q \<in> ran lookup" using Some by (auto simp: ran_def)
      ultimately show ?thesis using None by blast
    next
      case (Some n)
      with Cons.prems a \<open>lookup key = Some q\<close> s
      have "process_answers lookup as (total0 + sc)
          (acc @ [\<lparr>ans_question_id = n, ans_submitted = rendered,
                    ans_is_correct = is_correct_int correct, ans_score = sc\<rparr>]) = Inl e"
        by simp
      from Cons.IH[OF this] show ?thesis .
    qed
  qed
qed

lemma inner_lookup_Some:
  "foldl (\<lambda>m q. m(session_key sq q \<mapsto> q)) m qs k = Some q' \<Longrightarrow>
     m k = Some q' \<or> q' \<in> set qs"
proof (induction qs arbitrary: m)
  case Nil
  then show ?case by simp
next
  case (Cons q qs)
  from Cons.prems
  have "foldl (\<lambda>m q. m(session_key sq q \<mapsto> q)) (m(session_key sq q \<mapsto> q)) qs k = Some q'"
    by (simp only: foldl_Cons)
  from Cons.IH[OF this]
  have "(m(session_key sq q \<mapsto> q)) k = Some q' \<or> q' \<in> set qs" .
  then show ?case by (auto split: if_splits)
qed

lemma outer_lookup_Some:
  "foldl (\<lambda>m sq. foldl (\<lambda>m q. m(session_key sq q \<mapsto> q)) m (questions sq)) m sqs k = Some q' \<Longrightarrow>
     m k = Some q' \<or> (\<exists>sq\<in>set sqs. q' \<in> set (questions sq))"
proof (induction sqs arbitrary: m)
  case Nil
  then show ?case by simp
next
  case (Cons sq sqs)
  let ?m = "foldl (\<lambda>m q. m(session_key sq q \<mapsto> q)) m (questions sq)"
  from Cons.prems
  have "foldl (\<lambda>m sq. foldl (\<lambda>m q. m(session_key sq q \<mapsto> q)) m (questions sq)) ?m sqs k
      = Some q'"
    by (simp only: foldl_Cons)
  from Cons.IH[OF this]
  have "?m k = Some q' \<or> (\<exists>sq\<in>set sqs. q' \<in> set (questions sq))" .
  then show ?case
  proof
    assume "?m k = Some q'"
    from inner_lookup_Some[OF this] show ?thesis by auto
  next
    assume "\<exists>sq\<in>set sqs. q' \<in> set (questions sq)"
    then show ?thesis by auto
  qed
qed

lemma question_lookup_Some:
  "question_lookup sqs k = Some q \<Longrightarrow> \<exists>sq\<in>set sqs. q \<in> set (questions sq)"
  using outer_lookup_Some[of Map.empty sqs k q] by (simp add: question_lookup_def)

lemma numeric_ids_lookup:
  assumes "numeric_ids st" and "q \<in> ran (question_lookup (sub_quizzes st))"
  shows "py_int (q_id q) \<noteq> None"
proof -
  from assms(2) obtain k where "question_lookup (sub_quizzes st) k = Some q"
    by (auto simp: ran_def)
  from question_lookup_Some[OF this] obtain sq where
    "sq \<in> set (sub_quizzes st)" "q \<in> set (questions sq)" by blast
  with assms(1) show ?thesis by (auto simp: numeric_ids_def list_all_iff)
qed

lemma submit_results_inserts_Inl:
  assumes "submit_results_inserts fault qz n now tot rows cur = Inl e"
  shows "e = Error \<and> \<not> clear fault (executed cur) (Suc (length rows))"
proof (cases "insert_QuizTakers fault qz n now tot cur")
  case (Inl e')
  with assms have "e' = e" by (simp add: submit_results_inserts_def)
  with insert_QuizTakers_Inl[OF Inl] show ?thesis by (simp add: clear_Suc)
next
  case (Inr cur1)
  with assms have r: "save_answers fault (lastrowid cur1) rows cur1 = Inl e"
    by (simp add: submit_results_inserts_def)
  from save_answers_Inl[OF r] insert_QuizTakers_Inr(1,2)[OF Inr] show ?thesis
    by (simp add: clear_Suc)
qed

lemma submit_results_inserts_Inr:
  assumes "submit_results_inserts fault qz n now tot rows cur = Inr cur'"
  shows "clear fault (executed cur) (Suc (length rows))
     \<and> executed cur' = executed cur + Suc (length rows)
     \<and> QuizTakers (db cur') = QuizTakers (db cur) @
           [\<lparr>TakerID = next_TakerID (db cur), t_QuizID = qz, Taker_Name = n,
             Completed_At = now, Total_Score = tot\<rparr>]
     \<and> Answers (db cur') = Answers (db cur) @
          map (\<lambda>a. \<lparr>a_TakerID = next_TakerID (db cur), a_QuestionID = ans_question_id a,
                     Submitted_Answer = ans_submitted a, a_Is_Correct = ans_is_correct a,
                     Score_Achieved = ans_score a\<rparr>) rows
     \<and> quiz_tables_same (db cur) (db cur')"
proof -
  from assms obtain cur1 where
    i: "insert_QuizTakers fault qz n now tot cur = Inr cur1"
    and r: "save_answers fault (lastrowid cur1) rows cur1 = Inr cur'"
    by (auto simp: submit_results_inserts_def split: sum.splits)
  note f = insert_QuizTakers_Inr[OF i]
  note g = save_answers_Inr[OF r]
  have "quiz_tables_same (db cur) (db cur')"
    using f(7) g by (blast intro: quiz_tables_same_trans)
  with f g show ?thesis by (simp add: clear_Suc)
qed

lemma submit_results_not_connected:
  "submit_results False fault now st d = (d, SubmitNoConnection)"
  by (simp add: submit_results_def)

lemma submit_results_no_quiz_id:
  "py_int (qs_id st) = None \<Longrightarrow> submit_results True fault now st d = (d, SubmitRaised ValueError)"
  by (simp add: submit_results_def)

lemma submit_results_raised:
  "py_int (qs_id st) = Some qz \<Longrightarrow>
   process_answers (question_lookup (sub_quizzes st)) (answers st) 0 [] = Inl e \<Longrightarrow>
   submit_results True fault now st d = (d, SubmitRaised e)"
  by (simp add: submit_results_def)

lemma submit_results_scored:
  assumes "py_int (qs_id st) = Some qz"
    and "process_answers (question_lookup (sub_quizzes st)) (answers st) 0 [] = Inr (tot, rows)"
  shows "submit_results True fault now st d =
     (case submit_results_inserts fault qz (taker_name st) now tot rows (start_transaction d) of
        Inl e \<Rightarrow> (d, SubmitFailed)
      | Inr cur \<Rightarrow> if fault (executed cur) then (d, SubmitFailed)
                   else (db cur, Submitted tot))"
  unfolding submit_results_def commit_def using assms
  by (cases "submit_results_inserts fault qz (taker_name st) now tot rows (start_transaction d)")
    simp_all


text \<open>
  \<^verbatim>\<open>int(str(n))\<close> is \<open>n\<close>, so the ids of a quiz that \<^verbatim>\<open>get_quiz_by_code\<close>
  has rebuilt are numeric, whatever name and answers the session then records.
\<close>

lemma of_char_digit_char: "d < 10 \<Longrightarrow> (of_char (digit_char d) :: nat) = 48 + d"
  by (simp add: digit_char_def)

lemma is_digit_digit_char: "d < 10 \<Longrightarrow> is_digit (digit_char d)"
  by (simp add: is_digit_def of_char_digit_char)

lemma digit_val_digit_char: "d < 10 \<Longrightarrow> digit_val (digit_char d) = d"
  by (simp add: digit_val_def of_char_digit_char)

lemma py_str_digits:
  "py_str n \<noteq> [] \<and> list_all is_digit (py_str n)
   \<and> foldl (\<lambda>a ch. 10 * a + digit_val ch) 0 (py_str n) = n"
proof (induction n rule: py_str.induct)
  case (1 n)
  show ?case
  proof (cases "n < 10")
    case True
    then have "py_str n = [digit_char n]" by (subst py_str.simps) simp
    with True show ?thesis by (simp add: is_digit_digit_char digit_val_digit_char)
  next
    case False
    then have s: "py_str n = py_str (n div 10) @ [digit_char (n mod 10)]"
      by (subst py_str.simps) simp
    have m: "n mod 10 < 10" by simp
    from "1.IH"[OF False] s m show ?thesis
      by (simp add: is_digit_digit_char digit_val_digit_char)
  qed
qed

lemma py_int_py_str: "py_int (py_str n) = Some n"
  using py_str_digits[of n] by (simp add: py_int_def)

lemma get_quiz_by_code_numeric_ids:
  assumes "get_quiz_by_code connected failing d code = Some (loaded, quiz_doc_id)"
  shows "numeric_ids \<lparr>qs_id = quiz_doc_id, sub_quizzes = sub_quizzes_json loaded,
                       taker_name = name, answers = recorded,
                       current_subquiz_index = i, current_question_index = j\<rparr>"
proof (cases "filter (\<lambda>r. Access_Code r = code) (Quizzes d)")
  case Nil
  with assms show ?thesis by (simp add: get_quiz_by_code_def split: if_splits)
next
  case (Cons hdr rest)
  with assms have "quiz_doc_id = py_str (QuizID hdr)"
    and "sub_quizzes_json loaded = map (load_subquiz d)
       (sort_key sq_Order_Index (filter (\<lambda>r. sq_QuizID r = QuizID hdr) (SubQuizzes d)))"
    by (auto simp: get_quiz_by_code_def split: if_splits)
  then show ?thesis
    by (simp add: numeric_ids_def py_int_py_str list_all_iff load_subquiz_def
        load_question_def)
qed


text \<open>A committed attempt: what must have held, and the rows it added.\<close>

lemma submit_results_Submitted:
  assumes "submit_results connected fault now st d = (d', Submitted tot)"
  shows "connected \<and> clear fault 0 (Suc (Suc (length (scored_answers st))))
     \<and> (\<exists>qz (rows :: answer_to_insert list).
          py_int (qs_id st) = Some qz
          \<and> length rows = length (scored_answers st)
          \<and> tot = sum_list (map ans_score rows)
          \<and> QuizTakers d' = QuizTakers d @
               [\<lparr>TakerID = next_TakerID d, t_QuizID = qz, Taker_Name = taker_name st,
                 Completed_At = now, Total_Score = tot\<rparr>]
          \<and> Answers d' = Answers d @
               map (\<lambda>a. \<lparr>a_TakerID = next_TakerID d, a_QuestionID = ans_question_id a,
                          Submitted_Answer = ans_submitted a, a_Is_Correct = ans_is_correct a,
                          Score_Achieved = ans_score a\<rparr>) rows)
     \<and> quiz_tables_same d d'"
proof -
  have c: connected
  proof (rule ccontr)
    assume "\<not> connected"
    with assms show False by (simp add: submit_results_not_connected)
  qed
  with assms have s: "submit_results True fault now st d = (d', Submitted tot)" by simp
  obtain qz where qz: "py_int (qs_id st) = Some qz"
  proof (cases "py_int (qs_id st)")
    case None
    from submit_results_no_quiz_id[OF this] s have False by simp
    then show ?thesis ..
  next
    case (Some qz)
    then show ?thesis by (rule that)
  qed
  obtain tot' rows where
    p: "process_answers (question_lookup (sub_quizzes st)) (answers st) 0 [] = Inr (tot', rows)"
  proof (cases "process_answers (question_lookup (sub_quizzes st)) (answers st) 0 []")
    case (Inl e)
    from submit_results_raised[OF qz Inl] s have False by simp
    then show ?thesis ..
  next
    case (Inr r)
    then show ?thesis by (cases r) (auto intro: that)
  qed
  note u = submit_results_scored[OF qz p, of fault now d]
  obtain cur where
    i: "submit_results_inserts fault qz (taker_name st) now tot' rows (start_transaction d)
          = Inr cur"
  proof (cases "submit_results_inserts fault qz (taker_name st) now tot' rows
                  (start_transaction d)")
    case (Inl e)
    with u s have False by simp
    then show ?thesis ..
  next
    case (Inr cur)
    then show ?thesis by (rule that)
  qed
  have nf: "\<not> fault (executed cur)"
  proof
    assume "fault (executed cur)"
    with u i s show False by simp
  qed
  with u i s have d': "d' = db cur" and tot: "tot = tot'" by simp_all
  note f = submit_results_inserts_Inr[OF i]
  from process_answers_Inr[OF p] have
    len: "length rows = length (scored_answers st)"
    and sum: "tot' = sum_list (map ans_score rows)"
    by (simp_all add: scored_answers_def)
  have cl: "clear fault 0 (Suc (Suc (length (scored_answers st))))"
    using f nf len by (simp add: clear_Suc_right)
  from f have
    t: "QuizTakers d' = QuizTakers d @
               [\<lparr>TakerID = next_TakerID d, t_QuizID = qz, Taker_Name = taker_name st,
                 Completed_At = now, Total_Score = tot\<rparr>]"
    and a: "Answers d' = Answers d @
               map (\<lambda>a. \<lparr>a_TakerID = next_TakerID d, a_QuestionID = ans_question_id a,
                          Submitted_Answer = ans_submitted a, a_Is_Correct = ans_is_correct a,
                          Score_Achieved = ans_score a\<rparr>) rows"
    and q: "quiz_tables_same d d'"
    by (simp_all add: d' tot)
  from sum tot have sum': "tot = sum_list (map ans_score rows)" by simp
  have "\<exists>qz (rows :: answer_to_insert list).
          py_int (qs_id st) = Some qz
          \<and> length rows = length (scored_answers st)
          \<and> tot = sum_list (map ans_score rows)
          \<and> QuizTakers d' = QuizTakers d @
               [\<lparr>TakerID = next_TakerID d, t_QuizID = qz, Taker_Name = taker_name st,
                 Completed_At = now, Total_Score = tot\<rparr>]
          \<and> Answers d' = Answers d @
               map (\<lambda>a. \<lparr>a_TakerID = next_TakerID d, a_QuestionID = ans_question_id a,
                          Submitted_Answer = ans_submitted a, a_Is_Correct = ans_is_correct a,
                          Score_Achieved = ans_score a\<rparr>) rows"
    by (intro exI conjI) (rule qz, rule len, rule sum', rule t, rule a)
  with c cl q show ?thesis by simp
qed

lemma submit_results_not_Submitted:
  assumes "\<forall>tot. snd (submit_results connected fault now st d) \<noteq> Submitted tot"
  shows "fst (submit_results connected fault now st d) = d"
proof (cases connected)
  case False
  then show ?thesis by (simp add: submit_results_not_connected)
next
  case True
  show ?thesis
  proof (cases "py_int (qs_id st)")
    case None
    with True show ?thesis by (simp add: submit_results_no_quiz_id)
  next
    case (Some qz)
    show ?thesis
    proof (cases "process_answers (question_lookup (sub_quizzes st)) (answers st) 0 []")
      case (Inl e)
      with True Some show ?thesis by (simp add: submit_results_raised)
    next
      case (Inr r)
      obtain tot rows where r: "r = (tot, rows)" by (cases r)
      note u = submit_results_scored[OF Some Inr[unfolded r], of fault now d]
      show ?thesis
      proof (cases "submit_results_inserts fault qz (taker_name st) now tot rows
                      (start_transaction d)")
        case (Inl e)
        with u True show ?thesis by simp
      next
        case (Inr cur)
        with u True assms have "fault (executed cur)" by (auto split: if_splits)
        with u True Inr show ?thesis by simp
      qed
    qed
  qed
qed

lemma submit_results_keeps_keys_issued:
  assumes "keys_issued d"
  shows "keys_issued (fst (submit_results connected fault now st d))"
proof (cases "\<exists>tot. snd (submit_results connected fault now st d) = Submitted tot")
  case False
  then have "fst (submit_results connected fault now st d) = d"
    by (intro submit_results_not_Submitted) simp
  with assms show ?thesis by simp
next
  case True
  then obtain tot d' where s: "submit_results connected fault now st d = (d', Submitted tot)"
    by (metis prod.collapse)
  from submit_results_Submitted[OF s] have "quiz_tables_same d d'" by simp
  with assms have "keys_issued d'" by (simp add: keys_issued_def quiz_tables_same_def)
  with s show ?thesis by simp
qed

lemma submit_results_commits:
  assumes "numeric_ids st"
    and "clear fault 0 (Suc (Suc (length (scored_answers st))))"
  shows "\<exists>d' tot. submit_results True fault now st d = (d', Submitted tot)"
proof -
  from assms(1) obtain qz where qz: "py_int (qs_id st) = Some qz"
    by (auto simp: numeric_ids_def)
  obtain tot rows where
    p: "process_answers (question_lookup (sub_quizzes st)) (answers st) 0 [] = Inr (tot, rows)"
  proof (cases "process_answers (question_lookup (sub_quizzes st)) (answers st) 0 []")
    case (Inl e)
    from process_answers_Inl[OF Inl] numeric_ids_lookup[OF assms(1)] have False by blast
    then show ?thesis ..
  next
    case (Inr r)
    then show ?thesis by (cases r) (auto intro: that)
  qed
  from process_answers_Inr[OF p] have len: "length rows = length (scored_answers st)"
    by (simp add: scored_answers_def)
  from assms(2) len have cl: "clear fault 0 (Suc (length rows))"
    and nf: "\<not> fault (Suc (length rows))"
    by (simp_all add: clear_Suc_right)
  obtain cur where
    i: "submit_results_inserts fault qz (taker_name st) now tot rows (start_transaction d)
          = Inr cur"
  proof (cases "submit_results_inserts fault qz (taker_name st) now tot rows
                  (start_transaction d)")
    case (Inl e)
    from submit_results_inserts_Inl[OF Inl] cl have False by simp
    then show ?thesis ..
  next
    case (Inr cur)
    then show ?thesis by (rule that)
  qed
  from submit_results_inserts_Inr[OF i] have "executed cur = Suc (length rows)" by simp
  with nf i submit_results_scored[OF qz p, of fault now d]
  have "submit_results True fault now st d = (db cur, Submitted tot)" by simp
  then show ?thesis by blast
qed

text \<open>
  C5. \<^verbatim>\<open>submit_results\<close> is atomic. Unless the call reports a committed attempt the
  store is unchanged; a failure at any statement of the transaction (the insert of the
  taker row, of any answer row, or the commit) never reports one. A committed attempt
  has added exactly one \<^verbatim>\<open>QuizTakers\<close> row, carrying the total score, and exactly
  one \<^verbatim>\<open>Answers\<close> row per scored question, each carrying the new taker's id, and the
  total is the sum of the rows' scores; no other table is touched. With numeric ids (as
  \<^verbatim>\<open>get_quiz_by_code\<close> issues them) and no failing statement, the attempt commits.
\<close>

theorem submit_results_atomic:
  "((\<forall>tot. snd (submit_results connected fault now st d) \<noteq> Submitted tot)
       \<longrightarrow> fst (submit_results connected fault now st d) = d)
   \<and> (\<forall>k. k \<le> Suc (length (scored_answers st)) \<and> fault k
       \<longrightarrow> fst (submit_results connected fault now st d) = d
         \<and> (\<forall>tot. snd (submit_results connected fault now st d) \<noteq> Submitted tot))
   \<and> (\<forall>d' tot. submit_results connected fault now st d = (d', Submitted tot)
       \<longrightarrow> length (QuizTakers d') = Suc (length (QuizTakers d))
         \<and> TakerID (last (QuizTakers d')) = next_TakerID d
         \<and> Total_Score (last (QuizTakers d')) = tot
         \<and> length (Answers d') = length (Answers d) + length (scored_answers st)
         \<and> take (length (Answers d)) (Answers d') = Answers d
         \<and> list_all (\<lambda>r. a_TakerID r = next_TakerID d) (drop (length (Answers d)) (Answers d'))
         \<and> tot = sum_list (map Score_Achieved (drop (length (Answers d)) (Answers d')))
         \<and> quiz_tables_same d d')
   \<and> (numeric_ids st \<and> clear fault 0 (Suc (Suc (length (scored_answers st))))
       \<longrightarrow> (\<exists>d' tot. submit_results True fault now st d = (d', Submitted tot)))"
proof (intro conjI allI impI)
  assume "\<forall>tot. snd (submit_results connected fault now st d) \<noteq> Submitted tot"
  then show "fst (submit_results connected fault now st d) = d"
    by (rule submit_results_not_Submitted)
next
  fix k assume k: "k \<le> Suc (length (scored_answers st)) \<and> fault k"
  then have nc: "\<not> clear fault 0 (Suc (Suc (length (scored_answers st))))"
    by (intro not_clear_witness[of 0 k]) simp_all
  have no: "snd (submit_results connected fault now st d) \<noteq> Submitted tot" for tot
  proof
    assume "snd (submit_results connected fault now st d) = Submitted tot"
    then have "submit_results connected fault now st d
        = (fst (submit_results connected fault now st d), Submitted tot)"
      by (metis prod.collapse)
    from submit_results_Submitted[OF this] nc show False by simp
  qed
  then show "fst (submit_results connected fault now st d) = d"
    by (intro submit_results_not_Submitted) simp
  fix tot
  show "snd (submit_results connected fault now st d) \<noteq> Submitted tot" by (rule no)
next
  fix d' tot
  assume s: "submit_results connected fault now st d = (d', Submitted tot)"
  from submit_results_Submitted[OF s] obtain qz and rows :: "answer_to_insert list" where
    r: "length rows = length (scored_answers st)" "tot = sum_list (map ans_score rows)"
      "QuizTakers d' = QuizTakers d @
               [\<lparr>TakerID = next_TakerID d, t_QuizID = qz, Taker_Name = taker_name st,
                 Completed_At = now, Total_Score = tot\<rparr>]"
      "Answers d' = Answers d @
               map (\<lambda>a. \<lparr>a_TakerID = next_TakerID d, a_QuestionID = ans_question_id a,
                          Submitted_Answer = ans_submitted a, a_Is_Correct = ans_is_correct a,
                          Score_Achieved = ans_score a\<rparr>) rows"
    and q: "quiz_tables_same d d'"
    by blast
  show "length (QuizTakers d') = Suc (length (QuizTakers d))" using r(3) by simp
  show "TakerID (last (QuizTakers d')) = next_TakerID d" using r(3) by simp
  show "Total_Score (last (QuizTakers d')) = tot" using r(3) by simp
  show "length (Answers d') = length (Answers d) + length (scored_answers st)"
    using r(1,4) by simp
  show "take (length (Answers d)) (Answers d') = Answers d" using r(4) by simp
  show "list_all (\<lambda>r. a_TakerID r = next_TakerID d) (drop (length (Answers d)) (Answers d'))"
    using r(4) by (simp add: list_all_iff)
  show "tot = sum_list (map Score_Achieved (drop (length (Answers d)) (Answers d')))"
    using r(2,4) by (simp add: comp_def)
  show "quiz_tables_same d d'" by (rule q)
next
  assume "numeric_ids st \<and> clear fault 0 (Suc (Suc (length (scored_answers st))))"
  then show "\<exists>d' tot. submit_results True fault now st d = (d', Submitted tot)"
    by (intro submit_results_commits) simp_all
qed


lemma numeric_ids_attempt_state: "numeric_ids attempt_state"
  by (simp add: numeric_ids_def attempt_state_def q_single_b_def q_multi_xy_def q_open_def
      py_int_def is_digit_def)

lemma scored_answers_attempt_state: "scored_answers attempt_state = answers attempt_state"
  by (simp add: scored_answers_def attempt_state_def question_lookup_def session_key_def
      q_single_b_def q_multi_xy_def q_open_def)

lemma process_answers_attempt_state:
  "\<exists>rows. process_answers (question_lookup (sub_quizzes attempt_state))
            (answers attempt_state) 0 [] = Inr (3, rows)"
  by (simp add: attempt_state_def question_lookup_def session_key_def
      q_single_b_def q_multi_xy_def q_open_def score_submitted_def score_answer_def
      correct_choice_id_def correct_ids_def py_int_def is_digit_def digit_val_def)

lemma py_int_qs_id_attempt_state: "py_int (qs_id attempt_state) = Some 1"
  by (simp add: attempt_state_def py_int_def is_digit_def digit_val_def)

lemma submit_attempt_total:
  assumes "submit_results True fault now attempt_state d = (d', Submitted tot)"
  shows "tot = 3"
proof -
  from process_answers_attempt_state obtain rows where
    p: "process_answers (question_lookup (sub_quizzes attempt_state))
          (answers attempt_state) 0 [] = Inr (3, rows)"
    by blast
  note u = submit_results_scored[OF py_int_qs_id_attempt_state p, of fault now d]
  show ?thesis
  proof (cases "submit_results_inserts fault 1 (taker_name attempt_state) now 3 rows
                  (start_transaction d)")
    case (Inl e)
    with u assms show ?thesis by simp
  next
    case (Inr cur)
    with u assms show ?thesis by (simp split: if_splits)
  qed
qed

theorem submit_results_atomic_witness:
  "numeric_ids attempt_state
   \<and> length (scored_answers attempt_state) = 3
   \<and> fault_at_3 3
   \<and> fst (submit_results True fault_at_3 0 attempt_state (empty_database True))
       = empty_database True
   \<and> (\<exists>d'. submit_results True no_fault 0 attempt_state (empty_database True)
              = (d', Submitted 3)
          \<and> length (QuizTakers d') = 1 \<and> length (Answers d') = 3)"
proof -
  have n: "numeric_ids attempt_state" by (rule numeric_ids_attempt_state)
  have l: "length (scored_answers attempt_state) = 3"
    by (simp add: scored_answers_attempt_state) (simp add: attempt_state_def)
  have f: "fault_at_3 3" by (simp add: fault_at_3_def)
  have k: "3 \<le> Suc (length (scored_answers attempt_state)) \<and> fault_at_3 3"
    using l f by simp
  have a: "fst (submit_results True fault_at_3 0 attempt_state (empty_database True))
      = empty_database True"
    using submit_results_atomic[of True fault_at_3 0 attempt_state "empty_database True"] k
    by blast
  have c: "numeric_ids attempt_state
      \<and> clear no_fault 0 (Suc (Suc (length (scored_answers attempt_state))))"
    using n by simp
  from submit_results_atomic[of True no_fault 0 attempt_state "empty_database True"] c
  obtain d' tot where
    s: "submit_results True no_fault 0 attempt_state (empty_database True) = (d', Submitted tot)"
    by blast
  from submit_attempt_total[OF s] s have
    s3: "submit_results True no_fault 0 attempt_state (empty_database True) = (d', Submitted 3)"
    by simp
  from submit_results_atomic[of True no_fault 0 attempt_state "empty_database True"] s3
  have "length (QuizTakers d') = Suc (length (QuizTakers (empty_database True)))"
    and "length (Answers d')
      = length (Answers (empty_database True)) + length (scored_answers attempt_state)"
    by blast+
  with l have t: "length (QuizTakers d') = 1" and w: "length (Answers d') = 3"
    by (simp_all add: empty_database_def)
  show ?thesis
    by (intro conjI exI) (rule n, rule l, rule f, rule a, rule s3, rule t, rule w)
qed

text \<open>
  C9. For an \<^verbatim>\<open>OPEN_TEXT\<close> question \<open>score_answer\<close> returns \<open>(0, False)\<close> whatever
  is submitted. For a question of any type, an absent or empty submission
  (\<^verbatim>\<open>None\<close>, or the empty list) is scored by \<^verbatim>\<open>submit_results\<close> as zero points
  and incorrect without raising, and the answer row prepared for it says so.
\<close>

theorem open_text_and_empty_submissions:
  "(q_type q = ''OPEN_TEXT'' \<longrightarrow> (\<forall>submitted. score_answer q submitted = Inr (0, False)))
   \<and> score_submitted q ANone = Inr (0, False, NA)
   \<and> score_submitted q (AList []) = Inr (0, False, NA)
   \<and> (lookup key = Some q \<and> py_int (q_id q) = Some n
        \<and> (submitted = ANone \<or> submitted = AList [])
       \<longrightarrow> process_answers lookup [(key, submitted)] total_score rows
           = Inr (total_score,
                  rows @ [\<lparr>ans_question_id = n, ans_submitted = NA,
                            ans_is_correct = 0, ans_score = 0\<rparr>]))"
proof (intro conjI allI impI)
  fix submitted assume "q_type q = ''OPEN_TEXT''"
  then show "score_answer q submitted = Inr (0, False)" by (simp add: score_answer_def)
next
  show "score_submitted q ANone = Inr (0, False, NA)" by (simp add: score_submitted_empty)
next
  show "score_submitted q (AList []) = Inr (0, False, NA)" by (simp add: score_submitted_empty)
next
  assume a: "lookup key = Some q \<and> py_int (q_id q) = Some n
      \<and> (submitted = ANone \<or> submitted = AList [])"
  then have "score_submitted q submitted = Inr (0, False, NA)"
    by (intro score_submitted_empty) simp
  with a show "process_answers lookup [(key, submitted)] total_score rows
           = Inr (total_score,
                  rows @ [\<lparr>ans_question_id = n, ans_submitted = NA,
                            ans_is_correct = 0, ans_score = 0\<rparr>])"
    by (simp add: is_correct_int_def)
qed

theorem open_text_and_empty_submissions_witness:
  "q_type q_open = ''OPEN_TEXT''
   \<and> score_answer q_open (AStr ''because'') = Inr (0, False)
   \<and> score_submitted q_single_unmarked ANone = Inr (0, False, NA)
   \<and> score_submitted q_multi_unmarked (AList []) = Inr (0, False, NA)
   \<and> process_answers [''1_8'' \<mapsto> q_single_unmarked] [(''1_8'', ANone)] 0 []
       = Inr (0, [\<lparr>ans_question_id = 8, ans_submitted = NA,
                    ans_is_correct = 0, ans_score = 0\<rparr>])"
proof -
  have t: "q_type q_open = ''OPEN_TEXT''" by (simp add: q_open_def)
  have a: "score_answer q_open (AStr ''because'') = Inr (0, False)"
    using open_text_and_empty_submissions[of q_open] t by blast
  have b: "score_submitted q_single_unmarked ANone = Inr (0, False, NA)"
    using open_text_and_empty_submissions[of q_single_unmarked] by blast
  have c: "score_submitted q_multi_unmarked (AList []) = Inr (0, False, NA)"
    using open_text_and_empty_submissions[of q_multi_unmarked] by blast
  have h: "[''1_8'' \<mapsto> q_single_unmarked] ''1_8'' = Some q_single_unmarked
      \<and> py_int (q_id q_single_unmarked) = Some 8 \<and> (ANone = ANone \<or> ANone = AList [])"
    by (simp add: q_single_unmarked_def py_int_def is_digit_def digit_val_def)
  have "process_answers [''1_8'' \<mapsto> q_single_unmarked] [(''1_8'', ANone)] 0 []
       = Inr (0, [] @ [\<lparr>ans_question_id = 8, ans_submitted = NA,
                          ans_is_correct = 0, ans_score = 0\<rparr>])"
    by (rule open_text_and_empty_submissions[of q_single_unmarked
        "[''1_8'' \<mapsto> q_single_unmarked]" "''1_8''" 8 ANone 0 "[]",
        THEN conjunct2, THEN conjunct2, THEN conjunct2, THEN mp, OF h])
  then have d: "process_answers [''1_8'' \<mapsto> q_single_unmarked] [(''1_8'', ANone)] 0 []
       = Inr (0, [\<lparr>ans_question_id = 8, ans_submitted = NA,
                    ans_is_correct = 0, ans_score = 0\<rparr>])"
    by (simp only: append_Nil)
  show ?thesis
    by (intro conjI) (rule t, rule a, rule b, rule c, rule d)
qed

end
